theory Spec2Isabelle
  imports
    Main
    "HOL-Library.Word"
    "HOL-Library.List_Lexorder"
    "HOL-Library.Sublist"
    "HOL-Library.AList"
    "HOL-Library.Multiset"
begin

unbundle bit_operations_syntax

section \<open>Python values\<close>

text \<open>
  The tools \<^verbatim>\<open>elfmodel.py\<close> and \<^verbatim>\<open>mkextmod.py\<close> are Python. Exceptions
  are values of \<open>py_error\<close>; a function that can raise returns \<open>py_error + 'a\<close>.
  A \<^verbatim>\<open>str\<close> is a list of code points, \<^verbatim>\<open>bytes\<close> a list of 8-bit words, a
  Python \<^verbatim>\<open>int\<close> an \<open>int\<close>, a ctypes field of \<^verbatim>\<open>elf.py\<close> a word of its width
  (ctypes truncates on assignment).
\<close>

datatype py_error =
  AssertionError | ValueError | IndexError | TypeError | AttributeError
  | UnicodeEncodeError | UnicodeDecodeError

type_synonym byte = "8 word"
type_synonym pystr = "nat list"

definition str :: "string \<Rightarrow> pystr" where
  "str s = map of_char s"

text \<open>\<^verbatim>\<open>xs[lo:hi]\<close>: negative bounds count from the end, all bounds are clamped.\<close>

definition clamp_index :: "nat \<Rightarrow> int \<Rightarrow> nat" where
  "clamp_index n i = (if i < 0 then nat (max (i + int n) 0) else min (nat i) n)"

definition py_slice :: "'a list \<Rightarrow> int \<Rightarrow> int \<Rightarrow> 'a list" where
  "py_slice xs lo hi =
     (let l = clamp_index (length xs) lo; h = clamp_index (length xs) hi
      in take (h - l) (drop l xs))"

text \<open>\<^verbatim>\<open>xs[lo:]\<close>\<close>

definition py_slice_from :: "'a list \<Rightarrow> int \<Rightarrow> 'a list" where
  "py_slice_from xs lo = drop (clamp_index (length xs) lo) xs"

text \<open>\<^verbatim>\<open>int.from_bytes(bs, "little")\<close>\<close>

fun from_bytes_little :: "byte list \<Rightarrow> int" where
  "from_bytes_little [] = 0"
| "from_bytes_little (b # bs) = uint b + 256 * from_bytes_little bs"

text \<open>\<^verbatim>\<open>bs.index(v)\<close>: the first position of \<open>v\<close>, ValueError when there is none.\<close>

fun index_from :: "'a list \<Rightarrow> 'a \<Rightarrow> nat \<Rightarrow> py_error + nat" where
  "index_from [] v n = Inl ValueError"
| "index_from (x # xs) v n = (if x = v then Inr n else index_from xs v (Suc n))"

definition bytes_index :: "byte list \<Rightarrow> byte \<Rightarrow> int \<Rightarrow> py_error + nat" where
  "bytes_index bs v start =
     (let s = clamp_index (length bs) start in index_from (drop s bs) v s)"

subsection \<open>UTF-8, the default of \<^verbatim>\<open>str.encode\<close> and \<^verbatim>\<open>bytes.decode\<close>\<close>

definition utf8_char :: "nat \<Rightarrow> py_error + byte list" where
  "utf8_char c =
     (if c < 0x80 then Inr [of_nat c]
      else if c < 0x800 then Inr [of_nat (0xC0 + c div 64), of_nat (0x80 + c mod 64)]
      else if 0xD800 \<le> c \<and> c \<le> 0xDFFF then Inl UnicodeEncodeError
      else if c < 0x10000 then
        Inr [of_nat (0xE0 + c div 4096), of_nat (0x80 + c div 64 mod 64),
             of_nat (0x80 + c mod 64)]
      else if c < 0x110000 then
        Inr [of_nat (0xF0 + c div 262144), of_nat (0x80 + c div 4096 mod 64),
             of_nat (0x80 + c div 64 mod 64), of_nat (0x80 + c mod 64)]
      else Inl UnicodeEncodeError)"

fun encode :: "pystr \<Rightarrow> py_error + byte list" where
  "encode [] = Inr []"
| "encode (c # cs) =
     (case utf8_char c of
        Inl e \<Rightarrow> Inl e
      | Inr bs \<Rightarrow> (case encode cs of Inl e \<Rightarrow> Inl e | Inr rest \<Rightarrow> Inr (bs @ rest)))"

definition cont :: "nat \<Rightarrow> bool" where
  "cont b = (0x80 \<le> b \<and> b \<le> 0xBF)"

fun decode_nat :: "nat list \<Rightarrow> py_error + pystr" where
  "decode_nat [] = Inr []"
| "decode_nat (b # bs) =
     (if b < 0x80 then
        (case decode_nat bs of Inl e \<Rightarrow> Inl e | Inr r \<Rightarrow> Inr (b # r))
      else if 0xC2 \<le> b \<and> b \<le> 0xDF then
        (case bs of
           c1 # r1 \<Rightarrow>
             if cont c1 then
               (case decode_nat r1 of Inl e \<Rightarrow> Inl e
                | Inr r \<Rightarrow> Inr (((b - 0xC0) * 64 + (c1 - 0x80)) # r))
             else Inl UnicodeDecodeError
         | _ \<Rightarrow> Inl UnicodeDecodeError)
      else if 0xE0 \<le> b \<and> b \<le> 0xEF then
        (case bs of
           c1 # c2 # r2 \<Rightarrow>
             if cont c1 \<and> cont c2 \<and> (if b = 0xE0 then 0xA0 \<le> c1 else True)
                \<and> (if b = 0xED then c1 \<le> 0x9F else True) then
               (case decode_nat r2 of Inl e \<Rightarrow> Inl e
                | Inr r \<Rightarrow>
                    Inr (((b - 0xE0) * 4096 + (c1 - 0x80) * 64 + (c2 - 0x80)) # r))
             else Inl UnicodeDecodeError
         | _ \<Rightarrow> Inl UnicodeDecodeError)
      else if 0xF0 \<le> b \<and> b \<le> 0xF4 then
        (case bs of
           c1 # c2 # c3 # r3 \<Rightarrow>
             if cont c1 \<and> cont c2 \<and> cont c3 \<and> (if b = 0xF0 then 0x90 \<le> c1 else True)
                \<and> (if b = 0xF4 then c1 \<le> 0x8F else True) then
               (case decode_nat r3 of Inl e \<Rightarrow> Inl e
                | Inr r \<Rightarrow>
                    Inr (((b - 0xF0) * 262144 + (c1 - 0x80) * 4096 + (c2 - 0x80) * 64
                          + (c3 - 0x80)) # r))
             else Inl UnicodeDecodeError
         | _ \<Rightarrow> Inl UnicodeDecodeError)
      else Inl UnicodeDecodeError)"

definition decode :: "byte list \<Rightarrow> py_error + pystr" where
  "decode bs = decode_nat (map unat bs)"

section \<open>\<^verbatim>\<open>bisect\<close>\<close>

text \<open>
  \<^verbatim>\<open>bisect.bisect_left(a, x, key=key)\<close>, \<^verbatim>\<open>bisect.bisect_right\<close> and
  \<^verbatim>\<open>bisect.insort_right(a, x, key=key)\<close> of the standard library: the binary searches as
  the library runs them, on any list, sorted or not.
\<close>

function bisect_left_loop :: "('a \<Rightarrow> 'k::ord) \<Rightarrow> 'a list \<Rightarrow> 'k \<Rightarrow> nat \<Rightarrow> nat \<Rightarrow> nat" where
  "bisect_left_loop key a x lo hi =
     (if lo < hi then
        (let mid = (lo + hi) div 2
         in if key (a ! mid) < x then bisect_left_loop key a x (mid + 1) hi
            else bisect_left_loop key a x lo mid)
      else lo)"
  by pat_completeness auto
termination
  by (relation "measure (\<lambda>(key, a, x, lo, hi). hi - lo)") auto

declare bisect_left_loop.simps [simp del]

definition bisect_left :: "('a \<Rightarrow> 'k::ord) \<Rightarrow> 'a list \<Rightarrow> 'k \<Rightarrow> nat" where
  "bisect_left key a x = bisect_left_loop key a x 0 (length a)"

function bisect_right_loop :: "('a \<Rightarrow> 'k::ord) \<Rightarrow> 'a list \<Rightarrow> 'k \<Rightarrow> nat \<Rightarrow> nat \<Rightarrow> nat" where
  "bisect_right_loop key a x lo hi =
     (if lo < hi then
        (let mid = (lo + hi) div 2
         in if x < key (a ! mid) then bisect_right_loop key a x lo mid
            else bisect_right_loop key a x (mid + 1) hi)
      else lo)"
  by pat_completeness auto
termination
  by (relation "measure (\<lambda>(key, a, x, lo, hi). hi - lo)") auto

declare bisect_right_loop.simps [simp del]

definition bisect_right :: "('a \<Rightarrow> 'k::ord) \<Rightarrow> 'a list \<Rightarrow> 'k \<Rightarrow> nat" where
  "bisect_right key a x = bisect_right_loop key a x 0 (length a)"

text \<open>\<^verbatim>\<open>a.insert(i, x)\<close> for \<open>0 \<le> i\<close>\<close>

definition list_insert :: "'a list \<Rightarrow> nat \<Rightarrow> 'a \<Rightarrow> 'a list" where
  "list_insert a i x = take i a @ x # drop i a"

definition insort_right :: "('a \<Rightarrow> 'k::ord) \<Rightarrow> 'a list \<Rightarrow> 'a \<Rightarrow> 'a list" where
  "insort_right key a x = list_insert a (bisect_right key a (key x)) x"

section \<open>\<^verbatim>\<open>StrtabSection\<close>\<close>

text \<open>
  \<^verbatim>\<open>self.strings\<close> is an OrderedDict: an association list updated in place or at the
  end. \<^verbatim>\<open>register\<close> keeps the non-empty strings, each once, in the order of their first
  registration; the value \<open>None\<close> stands until \<^verbatim>\<open>build\<close> assigns the offsets.
\<close>

definition register :: "pystr \<Rightarrow> (pystr \<times> int option) list \<Rightarrow> (pystr \<times> int option) list" where
  "register s strings = (if s \<noteq> [] then AList.update s None strings else strings)"

type_synonym group = "pystr \<times> pystr list"

text \<open>The body of the first loop of \<^verbatim>\<open>build\<close>, for one string \<open>s\<close>.\<close>

definition build_step :: "group list \<Rightarrow> pystr \<Rightarrow> group list" where
  "build_step d s =
     (let rev_s = rev s;
          i = bisect_left fst d rev_s
      in if i < length d \<and> prefix rev_s (fst (d ! i)) then
           d[i := (fst (d ! i), insort_right length (snd (d ! i)) s)]
         else if 0 < i \<and> prefix (fst (d ! (i - 1))) rev_s then
           d[i - 1 := (rev_s, insort_right length (snd (d ! (i - 1))) s)]
         else list_insert d i (rev_s, [s]))"

definition build_groups :: "pystr list \<Rightarrow> group list" where
  "build_groups ss = foldl build_step [] ss"

text \<open>The second loop: the longest string of each group, then a NUL.\<close>

definition record_offsets :: "nat \<Rightarrow> pystr list \<Rightarrow> (pystr \<times> int) list \<Rightarrow> (pystr \<times> int) list" where
  "record_offsets n v strings =
     foldl (\<lambda>m s. AList.update s (int n - int (length s)) m) strings v"

fun emit :: "group list \<Rightarrow> byte list \<Rightarrow> (pystr \<times> int) list
    \<Rightarrow> py_error + byte list \<times> (pystr \<times> int) list" where
  "emit [] data strings = Inr (data, strings)"
| "emit ((key, v) # d) data strings =
     (if v = [] then Inl IndexError
      else case encode (last v) of
        Inl e \<Rightarrow> Inl e
      | Inr bs \<Rightarrow>
          emit d (data @ bs @ [0]) (record_offsets (length (data @ bs)) v strings))"

text \<open>\<^verbatim>\<open>lookup\<close>: the bytes from \<open>index\<close> to the next NUL, decoded.\<close>

definition lookup :: "byte list \<Rightarrow> int \<Rightarrow> py_error + pystr" where
  "lookup data index =
     (case bytes_index data 0 index of
        Inl e \<Rightarrow> Inl e
      | Inr end_index \<Rightarrow> decode (py_slice data index (int end_index)))"

text \<open>The closing loop of assertions.\<close>

fun check_strings :: "byte list \<Rightarrow> (pystr \<times> int) list \<Rightarrow> py_error + unit" where
  "check_strings data [] = Inr ()"
| "check_strings data ((k, v) # rest) =
     (case lookup data v of
        Inl e \<Rightarrow> Inl e
      | Inr s \<Rightarrow> if k = s then check_strings data rest else Inl AssertionError)"

text \<open>
  \<^verbatim>\<open>build\<close>, from the keys of \<^verbatim>\<open>self.strings\<close> to the new \<^verbatim>\<open>self.data\<close> and
  \<^verbatim>\<open>self.strings\<close>.
\<close>

definition build :: "(pystr \<times> int option) list \<Rightarrow> py_error + byte list \<times> (pystr \<times> int) list" where
  "build strings =
     (case emit (build_groups (map fst strings)) [0] [([], 0)] of
        Inl e \<Rightarrow> Inl e
      | Inr (data, offs) \<Rightarrow>
          (case check_strings data offs of
             Inl e \<Rightarrow> Inl e
           | Inr _ \<Rightarrow> Inr (data, offs)))"

definition registered :: "pystr list \<Rightarrow> (pystr \<times> int option) list" where
  "registered ss = foldl (\<lambda>m s. register s m) [] ss"

section \<open>\<^verbatim>\<open>ReadData.visit_ArmAttributesSection\<close>\<close>

text \<open>
  The method, from the bytes \<^verbatim>\<open>ReadData.visit_Section\<close> has read into \<^verbatim>\<open>section.data\<close> to
  the dictionary \<^verbatim>\<open>section.tags\<close> (an association list), or to the exception it raises.
  \<^verbatim>\<open>data[0]\<close> raises IndexError on empty bytes, \<^verbatim>\<open>data.index(0)\<close> raises ValueError when
  no byte is 0.
\<close>

definition visit_ArmAttributesSection :: "byte list \<Rightarrow> py_error + (pystr \<times> pystr) list" where
  "visit_ArmAttributesSection data0 =
     (case data0 of
        [] \<Rightarrow> Inr []
      | b0 # _ \<Rightarrow>
          if b0 \<noteq> 0x41 then Inr []
          else
            let data1 = py_slice_from data0 1;
                size1 = from_bytes_little (py_slice data1 0 4);
                data2 = py_slice data1 4 size1
            in case index_from data2 0 0 of
                 Inl e \<Rightarrow> Inl e
               | Inr size2 \<Rightarrow>
                   if py_slice data2 0 (int size2) \<noteq> map of_char ''aeabi'' then Inr []
                   else
                     (case py_slice_from data2 (int size2 + 1) of
                        [] \<Rightarrow> Inl IndexError
                      | b3 # data3 \<Rightarrow>
                          if b3 \<noteq> 1 then Inr []
                          else
                            let data4 = py_slice_from (b3 # data3) 1;
                                size4 = from_bytes_little (py_slice data4 0 4)
                            in (case py_slice data4 4 size4 of
                                  [] \<Rightarrow> Inl IndexError
                                | b5 # data5 \<Rightarrow>
                                    if b5 \<noteq> 5 then Inr []
                                    else
                                      let data6 = py_slice_from (b5 # data5) 1
                                      in (case index_from data6 0 0 of
                                            Inl e \<Rightarrow> Inl e
                                          | Inr size6 \<Rightarrow>
                                              (case decode (py_slice data6 0 (int size6)) of
                                                 Inl e \<Rightarrow> Inl e
                                               | Inr name \<Rightarrow> Inr [(str ''CPU_name'', name)])))))"
section \<open>The layout passes: \<^verbatim>\<open>ComputeAddresses\<close> and \<^verbatim>\<open>ComputeOffsets\<close>\<close>

text \<open>
  \<^verbatim>\<open>align(address, alignment)\<close> on Python's integers; each \<^verbatim>\<open>assert\<close> is a branch.
\<close>

definition align :: "int \<Rightarrow> int \<Rightarrow> py_error + int" where
  "align address alignment =
     (if \<not> alignment > 0 then Inl AssertionError
      else if (alignment AND (alignment - 1)) \<noteq> 0 then Inl AssertionError
      else Inr ((address + alignment - 1) AND NOT (alignment - 1)))"

text \<open>Sequencing of calls that can raise.\<close>

definition ebind :: "'e + 'a \<Rightarrow> ('a \<Rightarrow> 'e + 'b) \<Rightarrow> 'e + 'b" where
  "ebind m f = (case m of Inl e \<Rightarrow> Inl e | Inr x \<Rightarrow> f x)"

type_synonym word16 = "16 word"
type_synonym word32 = "32 word"

definition SHT_NULL :: word32 where "SHT_NULL = 0"
definition SHT_NOBITS :: word32 where "SHT_NOBITS = 8"
definition SHF_WRITE :: word32 where "SHF_WRITE = 1"
definition SHF_ALLOC :: word32 where "SHF_ALLOC = 2"

text \<open>
  The classes of sections, as far as the visitors of the layout passes tell them apart:
  \<open>EntrySection n e\<close> stands for \<^verbatim>\<open>SymtabSection\<close>, \<^verbatim>\<open>RelSection\<close>, \<^verbatim>\<open>RelaSection\<close> and
  \<^verbatim>\<open>DynamicSection\<close> with \<open>n\<close> entries of \<open>e\<close> bytes; \<open>Section\<close> for the class itself,
  \<^verbatim>\<open>StrtabSection\<close> and \<^verbatim>\<open>ArmAttributesSection\<close>.
\<close>

datatype section_class = Section | EntrySection nat nat | EhdrSection | PhdrsSection

text \<open>
  A section: the flags of \<^verbatim>\<open>Node\<close>, the fields of \<^verbatim>\<open>Shdr\<close> the passes read or write,
  \<^verbatim>\<open>data\<close>, and the attribute \<^verbatim>\<open>paddr\<close>, which a section has only once a pass has set it.
\<close>

record elf_section =
  cls :: section_class
  fixed :: bool
  deleted :: bool
  sh_type :: word32
  sh_flags :: word32
  sh_addr :: word32
  sh_offset :: word32
  sh_size :: word32
  sh_addralign :: word32
  data :: "byte list option"
  paddr :: "int option"

text \<open>
  A segment, with its member sections named by their positions in
  \<^verbatim>\<open>elffile.sections\<close>.
\<close>

record elf_segment =
  seg_fixed :: bool
  seg_deleted :: bool
  p_vaddr :: word32
  p_paddr :: word32
  seg_sections :: "nat list"

record elf_file =
  e_ehsize :: word16
  e_phentsize :: word16
  e_phnum :: word16
  e_shentsize :: word16
  e_shnum :: word16
  e_phoff :: word32
  e_shoff :: word32
  sections :: "elf_section list"
  segments :: "elf_segment list"

text \<open>The properties \<^verbatim>\<open>size\<close> (overridden by \<^verbatim>\<open>EntrySection\<close>) and \<^verbatim>\<open>psize\<close>.\<close>

definition size_sec :: "elf_section \<Rightarrow> nat" where
  "size_sec s =
     (case cls s of
        EntrySection n e \<Rightarrow> n * e
      | _ \<Rightarrow>
          (case data s of
             None \<Rightarrow> unat (sh_size s)
           | Some d \<Rightarrow> if d \<noteq> [] then length d else unat (sh_size s)))"

definition psize :: "elf_section \<Rightarrow> nat" where
  "psize s = (if sh_type s = SHT_NOBITS then 0 else size_sec s)"

text \<open>The truth value of \<^verbatim>\<open>flags & F\<close>.\<close>

definition has_flag :: "elf_section \<Rightarrow> word32 \<Rightarrow> bool" where
  "has_flag s f \<longleftrightarrow> (sh_flags s AND f) \<noteq> 0"

text \<open>
  \<^verbatim>\<open>Visitor.visit\<close> on a list: the nodes that are not deleted, in order, each changed in
  place; the visitor's own state is threaded through.
\<close>

fun visit_list :: "('a \<Rightarrow> bool) \<Rightarrow> ('st \<Rightarrow> 'a \<Rightarrow> py_error + 'a \<times> 'st) \<Rightarrow> 'st \<Rightarrow> 'a list
    \<Rightarrow> py_error + 'a list \<times> 'st" where
  "visit_list del f st [] = Inr ([], st)"
| "visit_list del f st (n # ns) =
     (if del n then
        ebind (visit_list del f st ns) (\<lambda>(ns', st'). Inr (n # ns', st'))
      else
        ebind (f st n) (\<lambda>(n', st1).
        ebind (visit_list del f st1 ns) (\<lambda>(ns', st2). Inr (n' # ns', st2))))"

subsection \<open>\<^verbatim>\<open>ComputeAddresses\<close>\<close>

record cursors =
  next_flash :: int
  next_ram :: int

definition ComputeAddresses_init :: cursors where
  "ComputeAddresses_init = \<lparr>next_flash = 0x10000000, next_ram = 0x20000000\<rparr>"

text \<open>\<^verbatim>\<open>visit_Segment\<close>: a fixed segment gives each member its physical address.\<close>

definition set_paddr :: "int \<Rightarrow> elf_section list \<Rightarrow> nat \<Rightarrow> elf_section list" where
  "set_paddr delta secs i =
     (if i < length secs then secs[i := (secs ! i)\<lparr>paddr := Some (uint (sh_addr (secs ! i)) + delta)\<rparr>]
      else secs)"

definition ComputeAddresses_visit_Segment :: "elf_section list \<Rightarrow> elf_segment \<Rightarrow> elf_section list" where
  "ComputeAddresses_visit_Segment secs seg =
     (if \<not> seg_fixed seg then secs
      else foldl (set_paddr (uint (p_paddr seg) - uint (p_vaddr seg))) secs (seg_sections seg))"

definition ComputeAddresses_visit_Section :: "cursors \<Rightarrow> elf_section \<Rightarrow> py_error + elf_section \<times> cursors" where
  "ComputeAddresses_visit_Section c s0 =
     (let s = s0\<lparr>sh_size := of_nat (size_sec s0)\<rparr>;
          a = uint (sh_addralign s)
      in if \<not> has_flag s SHF_ALLOC then Inr (s, c)
         else
           ebind
             (if has_flag s SHF_WRITE then
                ebind (if \<not> fixed s then
                         ebind (align (next_ram c) a) (\<lambda>v. Inr (s\<lparr>sh_addr := of_int v\<rparr>))
                       else Inr s) (\<lambda>s1.
                ebind (align (int (size_sec s1)) a) (\<lambda>v.
                Inr (s1, c\<lparr>next_ram := uint (sh_addr s1) + v\<rparr>)))
              else Inr (s, c)) (\<lambda>(s1, c1).
           ebind
             (if \<not> has_flag s1 SHF_WRITE \<or> sh_type s1 \<noteq> SHT_NOBITS then
                ebind (if \<not> fixed s1 then
                         ebind (align (next_flash c1) a) (\<lambda>v. Inr (s1\<lparr>paddr := Some v\<rparr>))
                       else Inr s1) (\<lambda>s2.
                (case paddr s2 of
                   None \<Rightarrow> Inl AttributeError
                 | Some p \<Rightarrow>
                     ebind (align (int (psize s2)) a) (\<lambda>v.
                     Inr (s2, c1\<lparr>next_flash := p + v\<rparr>))))
              else Inr (s1, c1)) (\<lambda>(s2, c2).
           if \<not> fixed s2 then
             if \<not> has_flag s2 SHF_WRITE then
               (case paddr s2 of
                  None \<Rightarrow> Inl AttributeError
                | Some p \<Rightarrow> Inr (s2\<lparr>sh_addr := of_int p\<rparr>, c2))
             else if sh_type s2 = SHT_NOBITS then
               Inr (s2\<lparr>paddr := Some (uint (sh_addr s2))\<rparr>, c2)
             else Inr (s2, c2)
           else Inr (s2, c2))))"

text \<open>
  The dispatch of \<^verbatim>\<open>Visitor.visit\<close> for \<^verbatim>\<open>ComputeAddresses\<close>: the two pseudo-sections
  set \<^verbatim>\<open>sh_size\<close> from the file header first; an \<^verbatim>\<open>EntrySection\<close> goes through
  \<^verbatim>\<open>Visitor.visit_EntrySection\<close> to \<^verbatim>\<open>visit_Section\<close> (its entries are visited by methods
  that do nothing).
\<close>

definition ComputeAddresses_visit :: "elf_file \<Rightarrow> cursors \<Rightarrow> elf_section \<Rightarrow> py_error + elf_section \<times> cursors" where
  "ComputeAddresses_visit elffile c s =
     (case cls s of
        PhdrsSection \<Rightarrow>
          ComputeAddresses_visit_Section c
            (s\<lparr>sh_size := of_nat (unat (e_phnum elffile) * unat (e_phentsize elffile))\<rparr>)
      | EhdrSection \<Rightarrow>
          ComputeAddresses_visit_Section c (s\<lparr>sh_size := of_nat (unat (e_ehsize elffile))\<rparr>)
      | _ \<Rightarrow> ComputeAddresses_visit_Section c s)"

text \<open>
  \<^verbatim>\<open>visit_Elf\<close>: the segments first, then the sections. The segments change nothing but the
  \<^verbatim>\<open>paddr\<close> of their members.
\<close>

definition ComputeAddresses_segments :: "elf_file \<Rightarrow> elf_section list" where
  "ComputeAddresses_segments elffile =
     foldl (\<lambda>secs seg. if seg_deleted seg then secs else ComputeAddresses_visit_Segment secs seg)
       (sections elffile) (segments elffile)"

definition ComputeAddresses_visit_Elf :: "elf_file \<Rightarrow> py_error + elf_file \<times> cursors" where
  "ComputeAddresses_visit_Elf elffile =
     ebind (visit_list deleted (ComputeAddresses_visit elffile) ComputeAddresses_init
              (ComputeAddresses_segments elffile))
       (\<lambda>(secs2, c). Inr (elffile\<lparr>sections := secs2\<rparr>, c))"

subsection \<open>\<^verbatim>\<open>ComputeOffsets\<close>\<close>

text \<open>
  The visitor's state is \<^verbatim>\<open>self.offset\<close>. \<^verbatim>\<open>alignment(elf32.Phdr)\<close> and
  \<^verbatim>\<open>alignment(elf32.Shdr)\<close> are 4: the widest field of either structure is a 32-bit word.
\<close>

definition alignment_Phdr :: int where "alignment_Phdr = 4"
definition alignment_Shdr :: int where "alignment_Shdr = 4"

definition ComputeOffsets_visit_Section :: "int \<Rightarrow> elf_section \<Rightarrow> py_error + elf_section \<times> int" where
  "ComputeOffsets_visit_Section offset s =
     (if sh_type s \<noteq> SHT_NULL then
        ebind (align offset (uint (sh_addralign s))) (\<lambda>offset1.
        Inr (s\<lparr>sh_offset := of_int offset1\<rparr>, offset1 + int (psize s)))
      else Inr (s, offset))"

definition ComputeOffsets_visit :: "elf_file \<Rightarrow> int \<Rightarrow> elf_section \<Rightarrow> py_error + elf_section \<times> int" where
  "ComputeOffsets_visit elffile offset s =
     (case cls s of
        PhdrsSection \<Rightarrow> Inr (s\<lparr>sh_offset := e_phoff elffile\<rparr>, offset)
      | EhdrSection \<Rightarrow> Inr (s\<lparr>sh_offset := 0\<rparr>, offset)
      | _ \<Rightarrow> ComputeOffsets_visit_Section offset s)"

definition ComputeOffsets_visit_Elf :: "int \<Rightarrow> elf_file \<Rightarrow> py_error + elf_file \<times> int" where
  "ComputeOffsets_visit_Elf sh_align elffile =
     ebind (align (uint (e_ehsize elffile)) alignment_Phdr) (\<lambda>offset1.
     let elf1 = elffile\<lparr>e_phoff := of_int offset1\<rparr>;
         offset2 = offset1 + uint (e_phnum elf1) * uint (e_phentsize elf1)
     in ebind (align offset2 sh_align) (\<lambda>offset3.
        ebind (visit_list deleted (ComputeOffsets_visit elf1) offset3 (sections elf1))
          (\<lambda>(secs, offset4).
        ebind (align offset4 alignment_Shdr) (\<lambda>offset5.
        Inr (elf1\<lparr>sections := secs, e_shoff := of_int offset5\<rparr>,
             offset5 + uint (e_shnum elf1) * uint (e_shentsize elf1))))))"


subsection \<open>Constructors and readers\<close>

text \<open>
  \<^verbatim>\<open>Node.__init__\<close> zeroes the structure but for the keyword arguments, and a node made by a
  constructor is neither fixed nor deleted.
\<close>

definition SHT_PROGBITS :: word32 where "SHT_PROGBITS = 1"
definition SHT_SYMTAB :: word32 where "SHT_SYMTAB = 2"
definition SHT_RELA :: word32 where "SHT_RELA = 4"
definition SHT_DYNAMIC :: word32 where "SHT_DYNAMIC = 6"
definition SHT_REL :: word32 where "SHT_REL = 9"
definition SHT_DYNSYM :: word32 where "SHT_DYNSYM = 11"

definition Section_init :: "section_class \<Rightarrow> word32 \<Rightarrow> word32 \<Rightarrow> word32 \<Rightarrow> word32
    \<Rightarrow> byte list option \<Rightarrow> elf_section" where
  "Section_init c ty flags addralign sz d =
     \<lparr>cls = c, fixed = False, deleted = False, sh_type = ty, sh_flags = flags, sh_addr = 0,
      sh_offset = 0, sh_size = sz, sh_addralign = addralign, data = d, paddr = None\<rparr>"

text \<open>
  \<^verbatim>\<open>Section.readfrom\<close> takes every field from the file and makes the node fixed;
  \<^verbatim>\<open>Section.__new__\<close> picks the class from \<^verbatim>\<open>Section.sh_types\<close>: the symbol tables (entries
  of 16 bytes), \<^verbatim>\<open>SHT_REL\<close> (8 bytes), \<^verbatim>\<open>SHT_RELA\<close> (12 bytes) and \<^verbatim>\<open>SHT_DYNAMIC\<close> (8 bytes)
  are entry sections, with no entry yet (\<^verbatim>\<open>ReadData\<close> reads them later); the string tables and
  the ARM attributes keep the size of a plain section, as does every other type.
\<close>

definition sh_types :: "word32 \<Rightarrow> section_class" where
  "sh_types ty =
     (if ty = SHT_SYMTAB \<or> ty = SHT_DYNSYM then EntrySection 0 16
      else if ty = SHT_REL then EntrySection 0 8
      else if ty = SHT_RELA then EntrySection 0 12
      else if ty = SHT_DYNAMIC then EntrySection 0 8
      else Section)"

definition Section_readfrom :: "word32 \<Rightarrow> word32 \<Rightarrow> word32 \<Rightarrow> word32 \<Rightarrow> word32 \<Rightarrow> word32
    \<Rightarrow> elf_section" where
  "Section_readfrom ty flags addr offset sz addralign =
     \<lparr>cls = sh_types ty, fixed = True, deleted = False, sh_type = ty, sh_flags = flags,
      sh_addr = addr, sh_offset = offset, sh_size = sz, sh_addralign = addralign,
      data = None, paddr = None\<rparr>"

text \<open>
  The header of an ELF32 file (records of 52, 32 and 40 bytes) after \<^verbatim>\<open>IndexNodes\<close>:
  \<^verbatim>\<open>e_phnum\<close> is the length of the segment list, \<^verbatim>\<open>e_shnum\<close> the number of the sections
  the pass numbers, those not deleted and not one of the two pseudo-sections.
\<close>

definition indexed :: "elf_section \<Rightarrow> bool" where
  "indexed s \<longleftrightarrow> \<not> deleted s \<and> cls s \<noteq> EhdrSection \<and> cls s \<noteq> PhdrsSection"

definition Elf_indexed :: "elf_section list \<Rightarrow> elf_segment list \<Rightarrow> elf_file" where
  "Elf_indexed secs segs =
     \<lparr>e_ehsize = 52, e_phentsize = 32, e_phnum = of_nat (length segs), e_shentsize = 40,
      e_shnum = of_nat (length (filter indexed secs)),
      e_phoff = 0, e_shoff = 0, sections = secs, segments = segs\<rparr>"

subsection \<open>Example sections\<close>

text \<open>
  A section header of type \<^verbatim>\<open>SHT_NULL\<close> read from a file, with its 16 bytes read by
  \<^verbatim>\<open>ReadData.visit_Section\<close>; an empty relocation section read from a file with
  \<^verbatim>\<open>sh_addralign = 0\<close> and then deleted, as \<^verbatim>\<open>mkextmod\<close> deletes every \<^verbatim>\<open>SHT_REL\<close> section
  once it has converted its relocations; and two sections made by the constructor.
\<close>

definition ex_null :: elf_section where
  "ex_null = (Section_readfrom SHT_NULL 0 0 4098 16 4)\<lparr>data := Some (replicate 16 0)\<rparr>"

definition ex_rel :: elf_section where
  "ex_rel = (Section_readfrom SHT_REL 0 0 592 0 0)\<lparr>deleted := True\<rparr>"

definition ex_text :: elf_section where
  "ex_text = Section_init Section SHT_PROGBITS SHF_ALLOC 4 0 (Some [0, 0xBF, 0, 0xBF])"

definition ex_rodata :: elf_section where
  "ex_rodata = Section_init Section SHT_PROGBITS SHF_ALLOC 8 0 (Some [1, 2, 3])"

definition ex_unaligned :: elf_section where
  "ex_unaligned = Section_init Section SHT_PROGBITS SHF_ALLOC 0 4 None"

text \<open>
  A read-only section of type \<^verbatim>\<open>SHT_NOBITS\<close> and a writable section made by the
  constructor, and three sections as \<^verbatim>\<open>ComputeAddresses\<close> leaves them.
\<close>

definition ex_nobits :: elf_section where
  "ex_nobits = Section_init Section SHT_NOBITS SHF_ALLOC 4 16 None"

definition ex_data :: elf_section where
  "ex_data = Section_init Section SHT_PROGBITS (SHF_ALLOC OR SHF_WRITE) 4 0 (Some [1, 2, 3, 4, 5])"

definition ex_text' :: elf_section where
  "ex_text' = ex_text\<lparr>sh_addr := 0x10000000, sh_size := 4, paddr := Some 0x10000000\<rparr>"
definition ex_data' :: elf_section where
  "ex_data' = ex_data\<lparr>sh_addr := 0x20000000, sh_size := 5, paddr := Some 0x10000004\<rparr>"
definition ex_rodata' :: elf_section where
  "ex_rodata' = ex_rodata\<lparr>sh_addr := 0x10000010, sh_size := 3, paddr := Some 0x10000010\<rparr>"

section \<open>\<^verbatim>\<open>mkextmod.py\<close>\<close>

subsection \<open>Symbols and relocations\<close>



text \<open>
  A \<^verbatim>\<open>Symbol\<close>: its name (\<^verbatim>\<open>None\<close> for the null symbol the constructor of a symbol table
  makes), its section (the attribute \<^verbatim>\<open>section\<close>, \<^verbatim>\<open>None\<close> when \<^verbatim>\<open>Dereference\<close> found no
  section for \<^verbatim>\<open>st_shndx\<close>; held by value, the loops below never write to a section), the
  fields of \<^verbatim>\<open>Sym\<close>, and the attribute \<^verbatim>\<open>dyn\<close> that \<^verbatim>\<open>mk_dyn\<close> sets: the position in
  \<^verbatim>\<open>dynsym.symbols\<close> of the symbol's copy.
\<close>

record elf_symbol =
  name :: "pystr option"
  sym_section :: "elf_section option"
  st_value :: word32
  st_size :: word32
  st_info :: byte
  st_other :: byte
  st_shndx :: word16
  dyn :: "nat option"




text \<open>
  A \<^verbatim>\<open>Relocation\<close> and a \<^verbatim>\<open>RelocationWithAddend\<close>. The attribute \<^verbatim>\<open>symbol\<close> is a position:
  in the symbol table the relocation section links to for an input relocation, in
  \<^verbatim>\<open>dynsym.symbols\<close> for a relocation of \<^verbatim>\<open>.rela.dyn\<close>. \<^verbatim>\<open>r_addend\<close> is a \<^verbatim>\<open>c_int32\<close>,
  read as a signed number by \<open>sint\<close>.
\<close>

record relocation =
  symbol :: nat
  r_offset :: word32
  r_info :: word32

record relocation_with_addend = relocation +
  r_addend :: word32



text \<open>
  The state of the two loops: the symbols of the input symbol table, and the entries of the
  three new sections \<^verbatim>\<open>.dynsym\<close>, \<^verbatim>\<open>.rela.dyn\<close> and \<^verbatim>\<open>.rel.dyn\<close>. A new \<^verbatim>\<open>SymtabSection\<close>
  holds the null symbol \<^verbatim>\<open>Symbol(name=None)\<close>.
\<close>

record mkextmod_state =
  symbols :: "elf_symbol list"
  dynsym :: "elf_symbol list"
  dynrela :: "relocation_with_addend list"
  dynrel :: "relocation list"





subsection \<open>The veneer loop\<close>






subsection \<open>The relocation conversion loop\<close>












subsection \<open>The dynamic entries\<close>










definition dynrel_size :: "mkextmod_state \<Rightarrow> nat" where
  "dynrel_size st = length (dynrel st) * 8"

subsection \<open>Example symbols\<close>











section \<open>Predicates of the statements\<close>

subsection \<open>String tables\<close>

text \<open>
  A group of the first loop of \<^verbatim>\<open>build\<close>: its strings are sorted by length, all are
  suffixes of the last one, and the key is the last one reversed.
\<close>

definition group_ok :: "group \<Rightarrow> bool" where
  "group_ok g \<longleftrightarrow>
     snd g \<noteq> [] \<and> sorted (map length (snd g)) \<and> fst g = rev (last (snd g))
     \<and> (\<forall>s\<in>set (snd g). suffix s (last (snd g)))"

text \<open>Strings of ASCII characters other than NUL: one byte each in UTF-8.\<close>

definition ascii :: "pystr \<Rightarrow> bool" where
  "ascii s \<longleftrightarrow> (\<forall>c\<in>set s. 0 < c \<and> c < 128)"

text \<open>The bytes of \<open>s\<close> stand at \<open>off\<close> in \<open>buf\<close>, and a NUL follows them.\<close>

definition at_offset :: "byte list \<Rightarrow> pystr \<Rightarrow> int \<Rightarrow> bool" where
  "at_offset buf s off \<longleftrightarrow>
     0 \<le> off \<and> nat off + length s < length buf
     \<and> take (length s) (drop (nat off) buf) = map of_nat s
     \<and> buf ! (nat off + length s) = 0"

text \<open>Every entry of the offset table points at its own string.\<close>

definition offsets_ok :: "byte list \<Rightarrow> (pystr \<times> int) list \<Rightarrow> bool" where
  "offsets_ok buf strings \<longleftrightarrow>
     distinct (map fst strings)
     \<and> (\<forall>k off. map_of strings k = Some off \<longrightarrow> ascii k \<and> at_offset buf k off)"

subsection \<open>Layout\<close>

definition laid_out :: "elf_section \<Rightarrow> bool" where
  "laid_out s \<longleftrightarrow>
     \<not> deleted s \<and> cls s \<noteq> EhdrSection \<and> cls s \<noteq> PhdrsSection \<and> sh_type s \<noteq> SHT_NULL"

definition offset_placed :: "int \<Rightarrow> int \<Rightarrow> elf_section \<Rightarrow> elf_section \<Rightarrow> bool" where
  "offset_placed lo hi s s' \<longleftrightarrow>
     (\<exists>o'. sh_offset s' = of_int o' \<and> lo \<le> o' \<and> o' + int (psize s) \<le> hi
           \<and> uint (sh_addralign s) dvd o')"

text \<open>
  No address the pass \<^verbatim>\<open>ComputeAddresses\<close> gives to a section is truncated by the 32-bit field
  \<^verbatim>\<open>sh_addr\<close> that stores it: for every section visited that is not fixed and has
  \<^verbatim>\<open>SHF_ALLOC\<close>, the field holds the aligned cursor itself.
\<close>

fun addresses_fit :: "elf_file \<Rightarrow> cursors \<Rightarrow> elf_section list \<Rightarrow> bool" where
  "addresses_fit elffile c [] = True"
| "addresses_fit elffile c (s # ss) =
     (if deleted s then addresses_fit elffile c ss
      else
        (case ComputeAddresses_visit elffile c s of
           Inl e \<Rightarrow> False
         | Inr (s', c') \<Rightarrow>
             (if \<not> fixed s \<and> has_flag s SHF_ALLOC then
                (if has_flag s SHF_WRITE
                 then align (next_ram c) (uint (sh_addralign s)) = Inr (uint (sh_addr s'))
                 else paddr s' = Some (uint (sh_addr s')))
              else True)
             \<and> addresses_fit elffile c' ss))"

text \<open>The fields \<^verbatim>\<open>ComputeAddresses\<close> never writes.\<close>

definition unchanged :: "elf_section \<Rightarrow> elf_section \<Rightarrow> bool" where
  "unchanged s s' \<longleftrightarrow>
     cls s' = cls s \<and> deleted s' = deleted s \<and> fixed s' = fixed s \<and> sh_type s' = sh_type s
     \<and> sh_flags s' = sh_flags s \<and> sh_addralign s' = sh_addralign s"

text \<open>
  A section stands between two states of the cursors: aligned, at or after the first cursor of
  its kind (RAM when writable, flash otherwise), and ending at or before the second.
\<close>

definition addr_placed :: "cursors \<Rightarrow> cursors \<Rightarrow> elf_section \<Rightarrow> bool" where
  "addr_placed c c' s' \<longleftrightarrow>
     uint (sh_addralign s') dvd uint (sh_addr s')
     \<and> (if has_flag s' SHF_WRITE
        then next_ram c \<le> uint (sh_addr s') \<and> uint (sh_addr s') + int (size_sec s') \<le> next_ram c'
        else next_flash c \<le> uint (sh_addr s') \<and> uint (sh_addr s') + int (psize s') \<le> next_flash c')"

text \<open>
  The sections \<^verbatim>\<open>ComputeAddresses\<close> gives an address (visited, not fixed, \<^verbatim>\<open>SHF_ALLOC\<close>), and
  those from whose own address it sets its cursors (visited, fixed, \<^verbatim>\<open>SHF_ALLOC\<close>).
\<close>

definition placed :: "elf_section \<Rightarrow> bool" where
  "placed s \<longleftrightarrow> \<not> deleted s \<and> \<not> fixed s \<and> has_flag s SHF_ALLOC"


definition pinned :: "elf_section \<Rightarrow> bool" where
  "pinned s \<longleftrightarrow> \<not> deleted s \<and> fixed s \<and> has_flag s SHF_ALLOC"

subsection \<open>Symbols\<close>

text \<open>Two states of a symbol table that differ in the attribute \<^verbatim>\<open>dyn\<close> only.\<close>

definition same_symbols :: "elf_symbol list \<Rightarrow> elf_symbol list \<Rightarrow> bool" where
  "same_symbols syms syms' \<longleftrightarrow>
     length syms' = length syms
     \<and> (\<forall>k<length syms. syms' ! k = (syms ! k)\<lparr>dyn := dyn (syms' ! k)\<rparr>)"

section \<open>The string table packer\<close>

subsection \<open>Binary searches\<close>

lemma bisect_left_loop_bounds:
  "lo \<le> hi \<Longrightarrow> lo \<le> bisect_left_loop key a x lo hi \<and> bisect_left_loop key a x lo hi \<le> hi"
proof (induction key a x lo hi rule: bisect_left_loop.induct)
  case (1 key a x lo hi)
  show ?case
  proof (cases "lo < hi")
    case False
    with "1.prems" show ?thesis by (subst (1 2) bisect_left_loop.simps) simp
  next
    case True
    define mid where "mid = (lo + hi) div 2"
    have m: "lo \<le> mid" "mid < hi" using True by (auto simp: mid_def)
    show ?thesis
    proof (cases "key (a ! mid) < x")
      case T: True
      have "mid + 1 \<le> hi" using m by simp
      from "1.IH"(1)[OF True mid_def T this] True T m show ?thesis
        by (subst (1 2) bisect_left_loop.simps) (simp add: mid_def Let_def)
    next
      case F: False
      from "1.IH"(2)[OF True mid_def F m(1)] True F m show ?thesis
        by (subst (1 2) bisect_left_loop.simps) (simp add: mid_def Let_def)
    qed
  qed
qed

lemma bisect_left_le: "bisect_left key a x \<le> length a"
  using bisect_left_loop_bounds[of 0 "length a" key a x] by (simp add: bisect_left_def)

lemma bisect_right_loop_sorted:
  fixes key :: "'a \<Rightarrow> 'k::linorder"
  assumes "sorted (map key a)" "lo \<le> hi" "hi \<le> length a"
    "\<forall>j<lo. key (a ! j) \<le> x" "\<forall>j. hi \<le> j \<and> j < length a \<longrightarrow> x < key (a ! j)"
  shows "(let r = bisect_right_loop key a x lo hi in r \<le> length a
          \<and> (\<forall>j<r. key (a ! j) \<le> x) \<and> (\<forall>j. r \<le> j \<and> j < length a \<longrightarrow> x < key (a ! j)))"
  using assms
proof (induction key a x lo hi rule: bisect_right_loop.induct)
  case (1 key a x lo hi)
  show ?case
  proof (cases "lo < hi")
    case False
    with "1.prems" have "lo = hi" by simp
    with "1.prems" False show ?thesis by (subst bisect_right_loop.simps) (simp add: Let_def)
  next
    case True
    define mid where "mid = (lo + hi) div 2"
    have m: "lo \<le> mid" "mid < hi" using True by (auto simp: mid_def)
    have ml: "mid < length a" using m "1.prems" by simp
    have srt: "\<And>i j. i \<le> j \<Longrightarrow> j < length a \<Longrightarrow> key (a ! i) \<le> key (a ! j)"
      using "1.prems"(1) by (simp add: sorted_iff_nth_mono)
    show ?thesis
    proof (cases "x < key (a ! mid)")
      case T: True
      have "\<forall>j. mid \<le> j \<and> j < length a \<longrightarrow> x < key (a ! j)"
        using T srt by (meson less_le_trans)
      have eq: "bisect_right_loop key a x lo hi = bisect_right_loop key a x lo mid"
        using True T by (subst bisect_right_loop.simps) (simp add: mid_def Let_def)
      have "mid \<le> length a" using ml by simp
      from "1.IH"(1)[OF True mid_def T "1.prems"(1) m(1) this "1.prems"(4) \<open>\<forall>j. mid \<le> j \<and> j < length a \<longrightarrow> x < key (a ! j)\<close>]
      show ?thesis unfolding eq .
    next
      case F: False
      have "\<forall>j<mid + 1. key (a ! j) \<le> x"
      proof (intro allI impI)
        fix j assume "j < mid + 1"
        then have "key (a ! j) \<le> key (a ! mid)" using srt[of j mid] ml by simp
        with F show "key (a ! j) \<le> x" by simp
      qed
      have eq: "bisect_right_loop key a x lo hi = bisect_right_loop key a x (mid + 1) hi"
        using True F by (subst bisect_right_loop.simps) (simp add: mid_def Let_def)
      have "mid + 1 \<le> hi" using m by simp
      from "1.IH"(2)[OF True mid_def F "1.prems"(1) this "1.prems"(3) \<open>\<forall>j<mid + 1. key (a ! j) \<le> x\<close> "1.prems"(5)]
      show ?thesis unfolding eq .
    qed
  qed
qed

lemma bisect_right_sorted:
  fixes key :: "'a \<Rightarrow> 'k::linorder"
  assumes "sorted (map key a)"
  shows "bisect_right key a x \<le> length a"
    and "\<forall>j<bisect_right key a x. key (a ! j) \<le> x"
    and "\<forall>j. bisect_right key a x \<le> j \<and> j < length a \<longrightarrow> x < key (a ! j)"
proof -
  have "\<forall>j. length a \<le> j \<and> j < length a \<longrightarrow> x < key (a ! j)" by auto
  from bisect_right_loop_sorted[OF assms _ _ _ this, of 0]
  have "let r = bisect_right key a x in r \<le> length a
          \<and> (\<forall>j<r. key (a ! j) \<le> x) \<and> (\<forall>j. r \<le> j \<and> j < length a \<longrightarrow> x < key (a ! j))"
    by (simp add: bisect_right_def)
  then show "bisect_right key a x \<le> length a"
    and "\<forall>j<bisect_right key a x. key (a ! j) \<le> x"
    and "\<forall>j. bisect_right key a x \<le> j \<and> j < length a \<longrightarrow> x < key (a ! j)"
    by (simp_all add: Let_def)
qed


lemma insort_right_sorted:
  fixes key :: "'a \<Rightarrow> 'k::linorder"
  assumes "sorted (map key a)"
  shows "sorted (map key (insort_right key a x))"
proof -
  define r where "r = bisect_right key a (key x)"
  note b = bisect_right_sorted[OF assms, of "key x", folded r_def]
  have 1: "\<forall>y\<in>set (take r a). key y \<le> key x"
    using b(2) by (auto simp: in_set_conv_nth)
  have 2: "\<forall>y\<in>set (drop r a). key x \<le> key y"
  proof
    fix y assume "y \<in> set (drop r a)"
    then obtain j where "j < length a - r" "y = a ! (r + j)"
      by (auto simp: in_set_conv_nth)
    with b(3) show "key x \<le> key y" by (simp add: less_imp_le)
  qed
  have 3: "sorted (map key (take r a))" "sorted (map key (drop r a))"
    using assms by (simp_all add: sorted_wrt_take sorted_wrt_drop sorted_map)
  have 4: "\<forall>y\<in>set (take r a). \<forall>z\<in>set (drop r a). key y \<le> key z"
    using 1 2 by (meson order_trans)
  show ?thesis
    using 1 2 3 4 by (simp add: insort_right_def list_insert_def r_def[symmetric] sorted_append)
qed

lemma mset_insort_right: "mset (insort_right key a x) = add_mset x (mset a)"
proof -
  have "mset (take r a) + mset (drop r a) = mset a" for r
    by (metis append_take_drop_id mset_append)
  then show ?thesis
    by (simp add: insort_right_def list_insert_def)
qed

lemma set_insort_right: "set (insort_right key a x) = insert x (set a)"
  using mset_insort_right[of key a x] by (metis set_mset_add_mset_insert set_mset_mset)

lemma insort_right_last_keep:
  fixes key :: "'a \<Rightarrow> 'k::linorder"
  assumes "sorted (map key a)" "a \<noteq> []" "key x < key (last a)"
  shows "last (insort_right key a x) = last a"
proof -
  define r where "r = bisect_right key a (key x)"
  note b = bisect_right_sorted[OF assms(1), of "key x", folded r_def]
  have "r < length a"
  proof (rule ccontr)
    assume "\<not> r < length a"
    then have "length a - 1 < r" using assms(2) by (cases a) auto
    with b(2) have "key (a ! (length a - 1)) \<le> key x" by blast
    with assms(2,3) show False by (simp add: last_conv_nth)
  qed
  then have "drop r a \<noteq> []" by simp
  then have "last (take r a @ x # drop r a) = last (drop r a)" by simp
  also have "\<dots> = last a" using \<open>r < length a\<close> by simp
  finally show ?thesis by (simp add: insort_right_def list_insert_def r_def)
qed

lemma insort_right_append:
  fixes key :: "'a \<Rightarrow> 'k::linorder"
  assumes "sorted (map key a)" "\<forall>y\<in>set a. key y \<le> key x"
  shows "insort_right key a x = a @ [x]"
proof -
  define r where "r = bisect_right key a (key x)"
  note b = bisect_right_sorted[OF assms(1), of "key x", folded r_def]
  have "r = length a"
  proof (rule ccontr)
    assume "r \<noteq> length a"
    with b(1) have "r < length a" by simp
    with b(3) have "key x < key (a ! r)" by simp
    moreover have "key (a ! r) \<le> key x" using assms(2) \<open>r < length a\<close> by simp
    ultimately show False by simp
  qed
  then show ?thesis by (simp add: insort_right_def list_insert_def r_def)
qed

lemma mset_concat_update:
  assumes "j < length d" "mset (snd g) = add_mset s (mset (snd (d ! j)))"
  shows "mset (concat (map snd (d[j := g]))) = add_mset s (mset (concat (map snd d)))"
  using assms
proof (induction d arbitrary: j)
  case Nil
  then show ?case by simp
next
  case (Cons a d)
  then show ?case by (cases j) auto
qed

lemma mset_concat_insert:
  "mset (concat (map snd (list_insert d i g))) = mset (snd g) + mset (concat (map snd d))"
proof -
  have "mset (concat (map snd (take i d))) + mset (concat (map snd (drop i d)))
        = mset (concat (map snd d))"
    by (metis append_take_drop_id concat_append map_append mset_append)
  then show ?thesis
    by (simp add: list_insert_def add.assoc add.left_commute)
qed

lemma all_update: "\<forall>g\<in>set d. P g \<Longrightarrow> P g' \<Longrightarrow> \<forall>g\<in>set (d[j := g']). P g"
  using set_update_subset_insert[of d j g'] by auto

lemma suffix_same_length: "suffix s t \<Longrightarrow> length s = length t \<Longrightarrow> s = t"
  by (auto simp: suffix_def)

lemma build_step_inv:
  assumes inv: "\<forall>g\<in>set d. group_ok g" and new: "s \<notin> set (concat (map snd d))"
  shows "(\<forall>g\<in>set (build_step d s). group_ok g)
       \<and> mset (concat (map snd (build_step d s))) = add_mset s (mset (concat (map snd d)))"
proof -
  define i where "i = bisect_left fst d (rev s)"
  have ile: "i \<le> length d" by (simp add: i_def bisect_left_le)
  consider (share) "i < length d" "prefix (rev s) (fst (d ! i))"
    | (extend) "\<not> (i < length d \<and> prefix (rev s) (fst (d ! i)))" "0 < i"
        "prefix (fst (d ! (i - 1))) (rev s)"
    | (fresh) "\<not> (i < length d \<and> prefix (rev s) (fst (d ! i)))"
        "\<not> (0 < i \<and> prefix (fst (d ! (i - 1))) (rev s))"
    by blast
  then show ?thesis
  proof cases
    case share
    define k where "k = fst (d ! i)"
    define v where "v = snd (d ! i)"
    have mem: "d ! i \<in> set d" using share(1) by simp
    then have ok: "group_ok (k, v)" using inv by (simp add: k_def v_def)
    have suf: "suffix s (last v)"
      using share(2) ok by (simp add: group_ok_def k_def[symmetric] suffix_to_prefix)
    have "last v \<in> set v" using ok by (simp add: group_ok_def)
    then have "last v \<in> set (concat (map snd d))" using mem by (auto simp: v_def)
    with new have "s \<noteq> last v" by auto
    with suf have lt: "length s < length (last v)"
      using suffix_same_length suffix_length_le by (metis le_neq_implies_less)
    have srt: "sorted (map length v)" and ne: "v \<noteq> []" using ok by (simp_all add: group_ok_def)
    have l: "last (insort_right length v s) = last v"
      by (rule insort_right_last_keep[OF srt ne lt])
    have nn: "insort_right length v s \<noteq> []"
      by (simp add: insort_right_def list_insert_def)
    have g: "group_ok (k, insort_right length v s)"
      using ok suf l nn insort_right_sorted[OF srt, of s]
      by (auto simp: group_ok_def set_insort_right)
    have eq: "build_step d s = d[i := (k, insort_right length v s)]"
      using share by (simp add: build_step_def i_def[symmetric] k_def v_def Let_def)
    have "mset (snd (k, insort_right length v s)) = add_mset s (mset (snd (d ! i)))"
      by (simp add: mset_insort_right v_def)
    from mset_concat_update[OF share(1) this] all_update[of d group_ok, OF inv g]
    show ?thesis unfolding eq by blast
  next
    case extend
    define v where "v = snd (d ! (i - 1))"
    define k where "k = fst (d ! (i - 1))"
    have il: "i - 1 < length d" using extend(2) ile by simp
    then have mem: "d ! (i - 1) \<in> set d" by simp
    then have ok: "group_ok (k, v)" using inv by (simp add: k_def v_def)
    have srt: "sorted (map length v)" and ne: "v \<noteq> []" using ok by (simp_all add: group_ok_def)
    have "k = rev (last v)" using ok by (simp add: group_ok_def)
    then have "prefix (rev (last v)) (rev s)"
      using extend(3) by (simp add: k_def)
    then have suf: "suffix (last v) s" by (simp add: suffix_to_prefix)
    have all: "\<forall>y\<in>set v. suffix y s"
      using ok suf by (auto simp: group_ok_def intro: suffix_order.trans)
    then have "\<forall>y\<in>set v. length y \<le> length s" by (simp add: suffix_length_le)
    then have app: "insort_right length v s = v @ [s]"
      by (rule insort_right_append[OF srt])
    have "sorted (map length (v @ [s]))"
      using insort_right_sorted[OF srt, of s] by (simp only: app)
    then have g: "group_ok (rev s, v @ [s])"
      using all by (auto simp: group_ok_def)
    have eq: "build_step d s = d[i - 1 := (rev s, v @ [s])]"
      using extend app by (auto simp add: build_step_def i_def[symmetric] v_def Let_def)
    have "mset (snd (rev s, v @ [s])) = add_mset s (mset (snd (d ! (i - 1))))"
      by (simp add: v_def)
    from mset_concat_update[OF il this] all_update[of d group_ok, OF inv g]
    show ?thesis unfolding eq by blast
  next
    case fresh
    have eq: "build_step d s = list_insert d i (rev s, [s])"
      using fresh by (auto simp add: build_step_def i_def[symmetric] Let_def)
    have "group_ok (rev s, [s])" by (simp add: group_ok_def)
    moreover have "set (list_insert d i (rev s, [s])) = insert (rev s, [s]) (set d)"
    proof -
      have "set (take i d) \<union> set (drop i d) = set d"
        by (metis append_take_drop_id set_append)
      then show ?thesis by (auto simp: list_insert_def)
    qed
    ultimately show ?thesis
      using inv unfolding eq by (simp add: mset_concat_insert)
  qed
qed


lemma build_groups_inv:
  assumes "\<forall>g\<in>set d. group_ok g" "distinct ss" "set ss \<inter> set (concat (map snd d)) = {}"
  shows "(\<forall>g\<in>set (foldl build_step d ss). group_ok g)
       \<and> mset (concat (map snd (foldl build_step d ss))) = mset ss + mset (concat (map snd d))"
  using assms
proof (induction ss arbitrary: d)
  case Nil
  then show ?case by simp
next
  case (Cons s ss)
  have new: "s \<notin> set (concat (map snd d))" using Cons.prems(3) by auto
  note st = build_step_inv[OF Cons.prems(1) new]
  have "set (concat (map snd (build_step d s))) = insert s (set (concat (map snd d)))"
    using st by (metis set_mset_add_mset_insert set_mset_mset)
  then have dj: "set ss \<inter> set (concat (map snd (build_step d s))) = {}"
    using Cons.prems(2,3) by auto
  have ds: "distinct ss" using Cons.prems(2) by simp
  from Cons.IH[OF conjunct1[OF st] ds dj] st show ?case by simp
qed

lemma encode_ascii: "ascii s \<Longrightarrow> encode s = Inr (map of_nat s)"
  by (induction s) (auto simp: ascii_def utf8_char_def)

lemma decode_nat_ascii: "\<forall>c\<in>set s. c < 128 \<Longrightarrow> decode_nat s = Inr s"
  by (induction s) auto

lemma unat_of_nat_byte: "c < 128 \<Longrightarrow> unat (of_nat c :: byte) = c"
  by (simp add: unat_of_nat)

lemma decode_ascii: "ascii s \<Longrightarrow> decode (map of_nat s) = Inr s"
proof -
  assume a: "ascii s"
  have "map unat (map of_nat s :: byte list) = s"
    using a by (induction s) (auto simp: ascii_def unat_of_nat_byte)
  with a show ?thesis by (simp add: decode_def decode_nat_ascii ascii_def)
qed

lemma ascii_no_nul: "ascii s \<Longrightarrow> (0::byte) \<notin> set (map of_nat s)"
proof
  assume a: "ascii s" and "(0::byte) \<in> set (map of_nat s)"
  then obtain c where c: "c \<in> set s" "(of_nat c :: byte) = 0" by auto
  then have "unat (of_nat c :: byte) = 0" by simp
  moreover have "unat (of_nat c :: byte) = c" using a c(1) by (simp add: ascii_def unat_of_nat_byte)
  ultimately show False using a c(1) by (auto simp: ascii_def)
qed

lemma index_from_append: "v \<notin> set xs \<Longrightarrow> index_from (xs @ v # ys) v n = Inr (n + length xs)"
  by (induction xs arbitrary: n) auto

lemma at_offset_append: "at_offset buf s off \<Longrightarrow> at_offset (buf @ xs) s off"
  by (auto simp: at_offset_def nth_append)

lemma at_offset_split:
  assumes "at_offset buf s off"
  shows "drop (nat off) buf = map of_nat s @ 0 # drop (nat off + length s + 1) buf"
proof -
  let ?o = "nat off"
  have l: "?o + length s < length buf" using assms by (simp add: at_offset_def)
  have "drop ?o buf = take (length s) (drop ?o buf) @ drop (length s) (drop ?o buf)"
    by (simp only: append_take_drop_id)
  also have "drop (length s) (drop ?o buf) = drop (?o + length s) buf"
    by (simp add: add.commute)
  also have "\<dots> = buf ! (?o + length s) # drop (Suc (?o + length s)) buf"
    using l by (simp add: Cons_nth_drop_Suc)
  finally show ?thesis using assms by (simp add: at_offset_def)
qed

lemma lookup_at_offset:
  assumes "ascii s" "at_offset buf s off"
  shows "lookup buf off = Inr s"
proof -
  let ?o = "nat off"
  have o: "0 \<le> off" "?o + length s < length buf" using assms(2) by (simp_all add: at_offset_def)
  then have ci: "clamp_index (length buf) off = ?o"
    by (simp add: clamp_index_def)
  have "bytes_index buf 0 off = Inr (?o + length s)"
    using index_from_append[OF ascii_no_nul[OF assms(1)], of _ ?o] at_offset_split[OF assms(2)]
    by (simp add: bytes_index_def ci)
  moreover have "clamp_index (length buf) (int (?o + length s)) = ?o + length s"
    using o by (simp add: clamp_index_def)
  then have "py_slice buf off (int (?o + length s)) = map of_nat s"
    using assms(2) by (simp add: py_slice_def ci at_offset_def Let_def)
  ultimately show ?thesis
    by (simp add: lookup_def decode_ascii[OF assms(1)])
qed

lemma map_of_record_offsets:
  "map_of (record_offsets n v strings) k =
     (if k \<in> set v then Some (int n - int (length k)) else map_of strings k)"
  unfolding record_offsets_def
  by (induction v arbitrary: strings) (auto simp: update_conv')

lemma distinct_record_offsets:
  "distinct (map fst strings) \<Longrightarrow> distinct (map fst (record_offsets n v strings))"
  unfolding record_offsets_def
  by (induction v arbitrary: strings) (auto simp: distinct_update)

lemma at_offset_new:
  assumes "suffix k l"
  shows "at_offset (buf @ map of_nat l @ [0]) k
           (int (length (buf @ map of_nat l)) - int (length k))"
proof -
  from assms obtain zs where l: "l = zs @ k" by (auto simp: suffix_def)
  have o: "nat (int (length (buf @ map of_nat l)) - int (length k)) = length buf + length zs"
    by (simp add: l)
  show ?thesis
    unfolding at_offset_def o by (simp add: l nth_append)
qed

lemma emit_ok:
  assumes "\<forall>g\<in>set d. snd g \<noteq> [] \<and> (\<forall>s\<in>set (snd g). ascii s \<and> suffix s (last (snd g)))"
    and "offsets_ok buf strings"
  shows "\<exists>buf' offs. emit d buf strings = Inr (buf', offs) \<and> offsets_ok buf' offs
           \<and> prefix buf buf'
           \<and> length buf' = length buf + (\<Sum>g\<leftarrow>d. length (last (snd g)) + 1)
           \<and> (\<forall>k. k \<notin> set (concat (map snd d)) \<longrightarrow> map_of offs k = map_of strings k)
           \<and> (\<forall>k\<in>set (concat (map snd d)). map_of offs k \<noteq> None)"
  using assms
proof (induction d arbitrary: buf strings)
  case Nil
  then show ?case by simp
next
  case (Cons g d)
  obtain key v where g: "g = (key, v)" by (cases g)
  have v: "v \<noteq> []" "\<forall>s\<in>set v. ascii s \<and> suffix s (last v)"
    using Cons.prems(1) by (auto simp: g)
  then have al: "ascii (last v)" by simp
  define bs :: "byte list" where "bs = map of_nat (last v)"
  define strings1 where "strings1 = record_offsets (length (buf @ bs)) v strings"
  have step: "emit (g # d) buf strings = emit d (buf @ bs @ [0]) strings1"
    using v(1) by (simp add: g encode_ascii[OF al] bs_def strings1_def)
  have ok1: "offsets_ok (buf @ bs @ [0]) strings1"
    unfolding offsets_ok_def
  proof (intro conjI allI impI)
    show "distinct (map fst strings1)"
      using Cons.prems(2) by (simp add: strings1_def distinct_record_offsets offsets_ok_def)
  next
    fix k off assume m: "map_of strings1 k = Some off"
    show "ascii k"
      using m v(2) Cons.prems(2)
      by (auto simp: strings1_def map_of_record_offsets offsets_ok_def split: if_splits)
    show "at_offset (buf @ bs @ [0]) k off"
    proof (cases "k \<in> set v")
      case True
      then have "off = int (length (buf @ bs)) - int (length k)"
        using m by (simp add: strings1_def map_of_record_offsets)
      moreover have "suffix k (last v)" using True v(2) by simp
      ultimately show ?thesis using at_offset_new[of k "last v" buf] by (simp add: bs_def)
    next
      case False
      then have "map_of strings k = Some off"
        using m by (simp add: strings1_def map_of_record_offsets)
      then have "at_offset buf k off" using Cons.prems(2) by (simp add: offsets_ok_def)
      then show ?thesis by (rule at_offset_append)
    qed
  qed
  have gs: "\<forall>g\<in>set d. snd g \<noteq> [] \<and> (\<forall>s\<in>set (snd g). ascii s \<and> suffix s (last (snd g)))"
    using Cons.prems(1) by simp
  from Cons.IH[OF gs ok1] obtain buf' offs where r:
    "emit d (buf @ bs @ [0]) strings1 = Inr (buf', offs)" "offsets_ok buf' offs"
    "prefix (buf @ bs @ [0]) buf'"
    "length buf' = length (buf @ bs @ [0]) + (\<Sum>g\<leftarrow>d. length (last (snd g)) + 1)"
    "\<forall>k. k \<notin> set (concat (map snd d)) \<longrightarrow> map_of offs k = map_of strings1 k"
    "\<forall>k\<in>set (concat (map snd d)). map_of offs k \<noteq> None"
    by blast
  have p: "prefix buf buf'" using r(3) by (meson append_prefixD)
  have len: "length buf' = length buf + (\<Sum>g\<leftarrow>g # d. length (last (snd g)) + 1)"
    using r(4) by (simp add: bs_def g)
  have keep: "\<forall>k. k \<notin> set (concat (map snd (g # d))) \<longrightarrow> map_of offs k = map_of strings k"
    using r(5) by (simp add: g strings1_def map_of_record_offsets)
  have dom: "\<forall>k\<in>set (concat (map snd (g # d))). map_of offs k \<noteq> None"
  proof
    fix k assume k: "k \<in> set (concat (map snd (g # d)))"
    show "map_of offs k \<noteq> None"
    proof (cases "k \<in> set (concat (map snd d))")
      case True
      with r(6) show ?thesis by blast
    next
      case False
      with k have "k \<in> set v" by (simp add: g)
      then have "map_of strings1 k \<noteq> None" by (simp add: strings1_def map_of_record_offsets)
      with r(5) False show ?thesis by simp
    qed
  qed
  show ?case
    unfolding step using r(1,2) p len keep dom by blast
qed

lemma check_strings_ok:
  "\<forall>(k, off)\<in>set offs. lookup buf off = Inr k \<Longrightarrow> check_strings buf offs = Inr ()"
  by (induction offs) auto

lemma update_fresh: "k \<notin> fst ` set al \<Longrightarrow> AList.update k v al = al @ [(k, v)]"
  by (induction al) auto

lemma registered_keys:
  assumes "distinct ss" "[] \<notin> set ss" "set ss \<inter> fst ` set m = {}"
  shows "map fst (foldl (\<lambda>m s. register s m) m ss) = map fst m @ ss"
  using assms
proof (induction ss arbitrary: m)
  case Nil
  then show ?case by simp
next
  case (Cons s ss)
  have s: "s \<noteq> []" "s \<notin> fst ` set m" using Cons.prems by auto
  then have r: "register s m = m @ [(s, None)]" by (simp add: register_def update_fresh)
  have "set ss \<inter> fst ` set (m @ [(s, None)]) = {}" using Cons.prems by auto
  from Cons.IH[OF _ _ this] Cons.prems show ?case by (simp add: r)
qed

lemma last_le_sum_list:
  fixes f :: "'a \<Rightarrow> nat"
  shows "v \<noteq> [] \<Longrightarrow> f (last v) \<le> sum_list (map f v)"
  by (induction v) auto

lemma groups_length_bound:
  assumes "\<forall>g\<in>set d. snd g \<noteq> []"
  shows "(\<Sum>g\<leftarrow>d. length (last (snd g)) + 1) \<le> (\<Sum>s\<leftarrow>concat (map snd d). length s + 1)"
  using assms
proof (induction d)
  case Nil
  then show ?case by simp
next
  case (Cons g d)
  have "length (last (snd g)) + 1 \<le> (\<Sum>s\<leftarrow>snd g. length s + 1)"
    using Cons.prems last_le_sum_list[of "snd g" "\<lambda>s. length s + 1"] by simp
  moreover have "(\<Sum>g\<leftarrow>d. length (last (snd g)) + 1) \<le> (\<Sum>s\<leftarrow>concat (map snd d). length s + 1)"
    using Cons by simp
  ultimately show ?case by simp
qed

lemma sum_list_mset_cong:
  fixes f :: "'a \<Rightarrow> nat"
  assumes "mset xs = mset ys"
  shows "sum_list (map f xs) = sum_list (map f ys)"
proof -
  have "sum_list (map f zs) = sum_mset (image_mset f (mset zs))" for zs
    by (induction zs) simp_all
  with assms show ?thesis by simp
qed

text \<open>
  For distinct, non-empty strings of ASCII characters other than NUL, \<^verbatim>\<open>build\<close>
  returns: the buffer starts with a NUL, the empty string has offset 0, every registered
  string stands at its offset with a NUL behind it, and the buffer has at most one byte
  per character and one NUL per string, after the leading NUL.
\<close>

lemma build_ascii:
  assumes "distinct ss" and "\<forall>s\<in>set ss. s \<noteq> [] \<and> ascii s"
  shows "\<exists>buf offs. build (registered ss) = Inr (buf, offs)
           \<and> prefix [0] buf
           \<and> map_of offs [] = Some 0
           \<and> (\<forall>s\<in>set ss. \<exists>off. map_of offs s = Some off \<and> at_offset buf s off)
           \<and> length buf \<le> 1 + (\<Sum>s\<leftarrow>ss. length s + 1)"
proof -
  have keys: "map fst (registered ss) = ss"
    using registered_keys[of ss "[]"] assms by (auto simp: registered_def)
  define d where "d = build_groups ss"
  have inv: "\<forall>g\<in>set d. group_ok g" and ms: "mset (concat (map snd d)) = mset ss"
    using build_groups_inv[of "[]" ss] assms(1) by (simp_all add: d_def build_groups_def)
  have st: "set (concat (map snd d)) = set ss" using ms by (metis set_mset_mset)
  have G: "\<forall>g\<in>set d. snd g \<noteq> [] \<and> (\<forall>s\<in>set (snd g). ascii s \<and> suffix s (last (snd g)))"
  proof (intro ballI conjI)
    fix g assume g: "g \<in> set d"
    with inv show "snd g \<noteq> []" by (simp add: group_ok_def)
    fix s assume s: "s \<in> set (snd g)"
    with g inv show "suffix s (last (snd g))" by (simp add: group_ok_def)
    from g s have "s \<in> set (concat (map snd d))" by auto
    with st assms(2) show "ascii s" by simp
  qed
  have J: "offsets_ok [0] [([], 0)]"
    by (simp add: offsets_ok_def ascii_def at_offset_def)
  from emit_ok[OF G J] obtain buf offs where r:
    "emit d [0] [([], 0)] = Inr (buf, offs)" "offsets_ok buf offs"
    "prefix [0] buf"
    "length buf = length [0::byte] + (\<Sum>g\<leftarrow>d. length (last (snd g)) + 1)"
    "\<forall>k. k \<notin> set (concat (map snd d)) \<longrightarrow> map_of offs k = map_of [([], 0)] k"
    "\<forall>k\<in>set (concat (map snd d)). map_of offs k \<noteq> None"
    by blast
  have "\<forall>(k, off)\<in>set offs. lookup buf off = Inr k"
  proof (clarify)
    fix k off assume "(k, off) \<in> set offs"
    then have "map_of offs k = Some off" using r(2) by (simp add: offsets_ok_def)
    then have "ascii k" "at_offset buf k off" using r(2) by (simp_all add: offsets_ok_def)
    then show "lookup buf off = Inr k" by (rule lookup_at_offset)
  qed
  then have chk: "check_strings buf offs = Inr ()" by (rule check_strings_ok)
  have b: "build (registered ss) = Inr (buf, offs)"
    by (simp add: build_def keys d_def[symmetric] r(1) chk)
  have e: "map_of offs [] = Some 0"
    using r(5) st assms(2) by auto
  have each: "\<forall>s\<in>set ss. \<exists>off. map_of offs s = Some off \<and> at_offset buf s off"
  proof
    fix s assume "s \<in> set ss"
    then have "s \<in> set (concat (map snd d))" by (simp only: st)
    with r(6) have "map_of offs s \<noteq> None" by blast
    then obtain off where "map_of offs s = Some off" by blast
    with r(2) show "\<exists>off. map_of offs s = Some off \<and> at_offset buf s off"
      by (auto simp: offsets_ok_def)
  qed
  have "(\<Sum>s\<leftarrow>concat (map snd d). length s + 1) = (\<Sum>s\<leftarrow>ss. length s + 1)"
    using ms by (rule sum_list_mset_cong)
  moreover have "(\<Sum>g\<leftarrow>d. length (last (snd g)) + 1) \<le> (\<Sum>s\<leftarrow>concat (map snd d). length s + 1)"
    using G by (intro groups_length_bound) simp
  ultimately have len: "length buf \<le> 1 + (\<Sum>s\<leftarrow>ss. length s + 1)"
    using r(4) by simp
  show ?thesis using b r(3) e each len by blast
qed

subsection \<open>Claims C2 and C3\<close>

text \<open>
  Claim C2: after \<^verbatim>\<open>build()\<close>, \<^verbatim>\<open>strings[s]\<close> is an offset at which the encoded bytes of
  \<open>s\<close> stand in \<^verbatim>\<open>data\<close>, for every set of distinct non-empty strings. The offset is
  computed as \<^verbatim>\<open>len(self.data) - len(s)\<close>, with \<^verbatim>\<open>len(s)\<close> the number of code points of
  \<open>s\<close>, while \<^verbatim>\<open>data\<close> holds the UTF-8 bytes of \<open>s\<close>. For the one string \<open>U+00E9\<close>
  the two bytes \<open>C3 A9\<close> stand at offset 1, the table says 2, the slice the claim reads
  there is the byte \<open>A9\<close>, and the closing loop of assertions of \<^verbatim>\<open>build\<close> raises
  when \<^verbatim>\<open>lookup\<close> decodes that byte.
\<close>

theorem C2_build_non_ascii:
  "encode [0xE9] = Inr [0xC3, 0xA9]
   \<and> emit (build_groups (map fst (registered [[0xE9]]))) [0] [([], 0)]
       = Inr ([0, 0xC3, 0xA9, 0], [([], 0), ([0xE9], 2)])
   \<and> py_slice [0, 0xC3, 0xA9, 0 :: byte] 2 (2 + int (length [0xE9 :: nat])) = [0xA9]
   \<and> build (registered [[0xE9]]) = Inl UnicodeDecodeError"
  by code_simp

text \<open>
  Claim C3, as amended: for distinct, non-empty strings of ASCII characters other than
  NUL, \<^verbatim>\<open>build()\<close> returns a buffer of at most \<open>1 + \<Sum> (len s + 1)\<close> bytes: the leading NUL,
  and for every string its characters and one terminating NUL.
\<close>

theorem C3_build_size_bound:
  assumes "distinct ss" and "\<forall>s\<in>set ss. s \<noteq> [] \<and> ascii s"
  shows "\<exists>buf offs. build (registered ss) = Inr (buf, offs)
           \<and> length buf \<le> 1 + (\<Sum>s\<leftarrow>ss. length s + 1)"
  using build_ascii[OF assms] by blast

theorem C3_build_size_bound_witness:
  "distinct [str ''abc'', str ''bc''] \<and> str ''abc'' \<noteq> [] \<and> ascii (str ''abc'')
   \<and> str ''bc'' \<noteq> [] \<and> ascii (str ''bc'')
   \<and> (\<exists>buf offs. build (registered [str ''abc'', str ''bc'']) = Inr (buf, offs)
          \<and> length buf \<le> 1 + (\<Sum>s\<leftarrow>[str ''abc'', str ''bc'']. length s + 1))"
proof -
  have h1: "distinct [str ''abc'', str ''bc'']" by (simp add: str_def)
  have h2: "\<forall>s\<in>set [str ''abc'', str ''bc'']. s \<noteq> [] \<and> ascii s"
    by (simp add: str_def ascii_def)
  from C3_build_size_bound[OF h1 h2] show ?thesis using h1 h2 by simp
qed

text \<open>
  Claim C3 as stated, \<open>|B| \<le> 1 + \<Sum> len s\<close>, fails for the one string \<open>a\<close>: the buffer is
  \<open>00 61 00\<close>, three bytes, and the bound is 2.
\<close>

theorem C3_counterexample:
  "build (registered [str ''a'']) = Inr ([0, 97, 0], [([], 0), (str ''a'', 1)])
   \<and> \<not> length [0 :: byte, 97, 0] \<le> 1 + (\<Sum>s\<leftarrow>[str ''a'']. length s)"
  by code_simp

section \<open>The ARM attributes parser\<close>

text \<open>
  Claim C8. The parser does not return normally on every input that fails the grammar: on the
  single byte \<^verbatim>\<open>0x41\<close> the search \<^verbatim>\<open>data.index(0)\<close> for the end of the vendor name raises
  \<^verbatim>\<open>ValueError\<close>, and on a section that ends after the vendor name \<^verbatim>\<open>aeabi\<close> the read
  \<^verbatim>\<open>data[0]\<close> of the tag raises \<^verbatim>\<open>IndexError\<close>. On data that matches the grammar the tag
  \<^verbatim>\<open>CPU_name\<close> is set to the decoded name.
\<close>

theorem C8_truncated_attributes_raise:
  "visit_ArmAttributesSection [0x41] = Inl ValueError
   \<and> visit_ArmAttributesSection ([0x41, 10, 0, 0, 0] @ map of_char ''aeabi'' @ [0]) = Inl IndexError
   \<and> visit_ArmAttributesSection
        ([0x41, 22, 0, 0, 0] @ map of_char ''aeabi'' @ [0, 1, 12, 0, 0, 0, 5]
         @ map of_char ''6S-M'' @ [0, 6, 12])
       = Inr [(str ''CPU_name'', str ''6S-M'')]"
  by code_simp

section \<open>The helper \<^verbatim>\<open>align\<close> and the visitor loop\<close>

lemma and_not_mask_int: "(y::int) AND NOT (mask k) = (y div 2 ^ k) * 2 ^ k"
proof -
  have "y AND NOT (mask k) = push_bit k (drop_bit k y)"
    by (rule bit_eqI) (auto simp: bit_simps)
  then show ?thesis by (simp add: push_bit_eq_mult drop_bit_eq_div)
qed

lemma pow2_of_and_zero:
  fixes a :: int
  assumes "0 < a" "a AND (a - 1) = 0"
  shows "\<exists>k. a = 2 ^ k"
  using assms
proof (induction "nat a" arbitrary: a rule: less_induct)
  case less
  show ?case
  proof (cases "a = 1")
    case True
    then have "a = 2 ^ 0" by simp
    then show ?thesis by blast
  next
    case False
    with less.prems have a2: "2 \<le> a" by simp
    have u: "a AND (a - 1) = (a mod 2) * ((a - 1) mod 2) + 2 * ((a div 2) AND ((a - 1) div 2))"
      using a2 by (subst and_int_unfold) auto
    show ?thesis
    proof (cases "even a")
      case True
      then obtain b where b: "a = 2 * b" by (auto elim: evenE)
      have bpos: "0 < b" using a2 b by simp
      have "(a - 1) div 2 = b - 1" using b by simp
      with u less.prems(2) b have "b AND (b - 1) = 0" by simp
      moreover have "nat b < nat a" using b bpos by simp
      ultimately obtain k where "b = 2 ^ k" using less.hyps[of b] bpos by blast
      then have "a = 2 ^ Suc k" using b by simp
      then show ?thesis by blast
    next
      case False
      then obtain b where b: "a = 2 * b + 1" by (auto elim: oddE)
      have bpos: "0 < b" using a2 b by simp
      have "(a - 1) div 2 = b" "a div 2 = b" using b by simp_all
      with u less.prems(2) have "2 * b \<le> 0"
        using b by (simp add: and.idem)
      with bpos show ?thesis by simp
    qed
  qed
qed

lemma pow2_and_zero: "(2::int) ^ k AND (2 ^ k - 1) = 0"
proof -
  have m: "(2::int) ^ k - 1 = mask k" by (simp add: mask_eq_exp_minus_1)
  have "(2::int) ^ k AND mask k = 0"
    by (rule bit_eqI) (auto simp: bit_simps)
  then show ?thesis by (simp only: m)
qed

lemma align_pow2:
  "align x (2 ^ k) = Inr (((x + 2 ^ k - 1) div 2 ^ k) * 2 ^ k)"
proof -
  have m: "(2::int) ^ k - 1 = mask k" by (simp add: mask_eq_exp_minus_1)
  show ?thesis
    unfolding align_def using pow2_and_zero[of k]
    by (simp add: m and_not_mask_int)
qed

lemma align_Inr:
  assumes "align x a = Inr v"
  shows "\<exists>k. a = 2 ^ k \<and> v = ((x + a - 1) div a) * a"
proof -
  from assms have "0 < a" "a AND (a - 1) = 0"
    by (auto simp: align_def split: if_splits)
  then obtain k where k: "a = 2 ^ k" using pow2_of_and_zero by blast
  with assms align_pow2[of x k] show ?thesis by auto
qed

lemma align_props:
  assumes "align x a = Inr v"
  shows "0 < a" "a dvd v" "x \<le> v" "v < x + a"
proof -
  from align_Inr[OF assms] obtain k where k: "a = 2 ^ k" and v: "v = ((x + a - 1) div a) * a"
    by blast
  show a: "0 < a" by (simp add: k)
  show "a dvd v" by (simp add: v)
  have d: "x + a - 1 = ((x + a - 1) div a) * a + (x + a - 1) mod a" by simp
  have m: "0 \<le> (x + a - 1) mod a" "(x + a - 1) mod a < a" using a by simp_all
  show "x \<le> v" using d m unfolding v by linarith
  show "v < x + a" using d m unfolding v by linarith
qed

lemma align_error:
  assumes "\<not> (\<exists>k. a = 2 ^ k)"
  shows "align x a = Inl AssertionError"
proof (cases "align x a")
  case (Inl e)
  then show ?thesis by (auto simp: align_def split: if_splits)
next
  case (Inr v)
  from align_Inr[OF this] assms show ?thesis by blast
qed

lemma align_only_AssertionError: "align x a = Inl e \<Longrightarrow> e = AssertionError"
  by (auto simp: align_def split: if_splits)

lemma ebind_Inr_iff: "ebind m f = Inr y \<longleftrightarrow> (\<exists>x. m = Inr x \<and> f x = Inr y)"
  by (cases m) (auto simp: ebind_def)

lemma ebind_Inl_iff: "ebind m f = Inl e \<longleftrightarrow> m = Inl e \<or> (\<exists>x. m = Inr x \<and> f x = Inl e)"
  by (cases m) (auto simp: ebind_def)

lemma visit_list_error:
  assumes only: "\<And>st n e. f st n = Inl e \<Longrightarrow> e = E"
    and bad: "n \<in> set ns" "\<not> del n" "\<And>st. f st n = Inl E"
  shows "visit_list del f st ns = Inl E"
  using bad(1)
proof (induction ns arbitrary: st)
  case Nil
  then show ?case by simp
next
  case (Cons m ns)
  show ?case
  proof (cases "m = n")
    case True
    then show ?thesis using bad(2,3) by (simp add: ebind_def)
  next
    case False
    with Cons.prems have "n \<in> set ns" by simp
    note ih = Cons.IH[OF this]
    show ?thesis
    proof (cases "del m")
      case True
      then show ?thesis by (simp add: ih ebind_def)
    next
      case False
      show ?thesis
      proof (cases "f st m")
        case (Inl e)
        with only[OF Inl] False show ?thesis by (simp add: ebind_def)
      next
        case (Inr r)
        obtain m' st1 where "r = (m', st1)" by (cases r)
        with Inr False show ?thesis by (simp add: ebind_def ih)
      qed
    qed
  qed
qed

lemma ComputeOffsets_visit_only_AssertionError:
  "ComputeOffsets_visit elffile offset s = Inl e \<Longrightarrow> e = AssertionError"
  by (auto simp: ComputeOffsets_visit_def ComputeOffsets_visit_Section_def ebind_Inl_iff
      dest: align_only_AssertionError split: section_class.splits if_splits)

text \<open>
  Claim C10, amended. \<^verbatim>\<open>align\<close> raises \<^verbatim>\<open>AssertionError\<close> when its alignment is not a power
  of two (0 included), and \<^verbatim>\<open>ComputeOffsets\<close> calls it with \<^verbatim>\<open>sh_addralign\<close> for every
  section it visits (in the section list, not deleted, not one of the two pseudo-sections) that
  is not \<^verbatim>\<open>SHT_NULL\<close>: when the section list holds such a section whose \<^verbatim>\<open>sh_addralign\<close> is
  not a power of two, the pass raises \<^verbatim>\<open>AssertionError\<close> and lays nothing out.
\<close>

theorem C10_bad_alignment_aborts:
  assumes "s \<in> set (sections elffile)" and "\<not> deleted s"
    and "cls s \<noteq> EhdrSection" and "cls s \<noteq> PhdrsSection"
    and "sh_type s \<noteq> SHT_NULL"
    and "\<not> (\<exists>k. uint (sh_addralign s) = 2 ^ k)"
  shows "align offset (uint (sh_addralign s)) = Inl AssertionError
       \<and> ComputeOffsets_visit_Elf sh_align elffile = Inl AssertionError"
proof -
  have a: "align x (uint (sh_addralign s)) = Inl AssertionError" for x
    using assms(6) by (rule align_error)
  have v: "ComputeOffsets_visit elf1 x s = Inl AssertionError" for elf1 x
    using assms(3,4,5) a
    by (cases "cls s") (simp_all add: ComputeOffsets_visit_def ComputeOffsets_visit_Section_def ebind_def)
  have l: "visit_list deleted (ComputeOffsets_visit elf1) x (sections elffile) = Inl AssertionError"
    for elf1 x
    by (rule visit_list_error[where n = s])
       (use assms(1,2) v in \<open>auto dest: ComputeOffsets_visit_only_AssertionError\<close>)
  have "ComputeOffsets_visit_Elf sh_align elffile = Inl AssertionError"
  proof (cases "ComputeOffsets_visit_Elf sh_align elffile")
    case (Inl e)
    then have "e = AssertionError"
      by (auto simp: ComputeOffsets_visit_Elf_def ebind_Inl_iff Let_def l
          dest: align_only_AssertionError split: prod.splits)
    with Inl show ?thesis by simp
  next
    case (Inr r)
    then show ?thesis
      by (auto simp: ComputeOffsets_visit_Elf_def ebind_Inr_iff Let_def l)
  qed
  with a show ?thesis by simp
qed

theorem C10_bad_alignment_aborts_witness:
  "ex_unaligned \<in> set (sections (Elf_indexed [ex_text, ex_unaligned] []))
   \<and> \<not> deleted ex_unaligned
   \<and> cls ex_unaligned = Section
   \<and> sh_type ex_unaligned = SHT_PROGBITS
   \<and> uint (sh_addralign ex_unaligned) = 0
   \<and> align 4100 (uint (sh_addralign ex_unaligned)) = Inl AssertionError
   \<and> ComputeOffsets_visit_Elf 4096 (Elf_indexed [ex_text, ex_unaligned] []) = Inl AssertionError"
proof -
  have h1: "ex_unaligned \<in> set (sections (Elf_indexed [ex_text, ex_unaligned] []))"
    by (simp add: Elf_indexed_def)
  have f: "\<not> deleted ex_unaligned" "cls ex_unaligned = Section"
    "sh_type ex_unaligned = SHT_PROGBITS" "uint (sh_addralign ex_unaligned) = 0"
    by (simp_all add: ex_unaligned_def Section_init_def)
  have h2: "cls ex_unaligned \<noteq> EhdrSection" "cls ex_unaligned \<noteq> PhdrsSection"
    "sh_type ex_unaligned \<noteq> SHT_NULL"
    by (simp_all add: f SHT_PROGBITS_def SHT_NULL_def)
  have h3: "\<not> (\<exists>k. uint (sh_addralign ex_unaligned) = 2 ^ k)" by (simp add: f)
  from C10_bad_alignment_aborts[OF h1 f(1) h2 h3, of 4100 4096] show ?thesis
    using h1 f by simp
qed

text \<open>
  The claim as stated, for every section that is not \<^verbatim>\<open>SHT_NULL\<close>, fails on a section the
  visitor skips: a deleted relocation section with \<^verbatim>\<open>sh_addralign = 0\<close> stays in the section
  list, \<^verbatim>\<open>align\<close> is never called with its alignment, and the pass returns.
\<close>

theorem C10_counterexample:
  "ex_rel \<in> set (sections (Elf_indexed [ex_rel, ex_text] []))
   \<and> sh_type ex_rel = SHT_REL \<and> SHT_REL \<noteq> SHT_NULL
   \<and> uint (sh_addralign ex_rel) = 0
   \<and> align 4096 (uint (sh_addralign ex_rel)) = Inl AssertionError
   \<and> deleted ex_rel
   \<and> ComputeOffsets_visit_Elf 4096 (Elf_indexed [ex_rel, ex_text] [])
       = Inr ((Elf_indexed [ex_rel, ex_text\<lparr>sh_offset := 4096\<rparr>] [])
                \<lparr>e_phoff := 52, e_shoff := 4100\<rparr>, 4140)"
  by code_simp

section \<open>\<^verbatim>\<open>ComputeOffsets\<close>\<close>



lemma visit_list_append:
  "visit_list del f st (xs @ ys) =
     ebind (visit_list del f st xs) (\<lambda>(xs', st1).
     ebind (visit_list del f st1 ys) (\<lambda>(ys', st2). Inr (xs' @ ys', st2)))"
proof (induction xs arbitrary: st)
  case Nil
  show ?case by (cases "visit_list del f st ys") (auto simp: ebind_def)
next
  case (Cons x xs)
  show ?case
  proof (cases "del x")
    case True
    then show ?thesis
      by (cases "visit_list del f st xs")
         (auto simp: Cons.IH ebind_def split: sum.splits prod.splits)
  next
    case False
    then show ?thesis
      by (cases "f st x")
         (auto simp: Cons.IH ebind_def split: sum.splits prod.splits)
  qed
qed

lemma visit_list_length:
  "visit_list del f st ns = Inr (ns', st') \<Longrightarrow> length ns' = length ns"
proof (induction ns arbitrary: st ns' st')
  case Nil
  then show ?case by simp
next
  case (Cons n ns)
  then show ?case
    by (auto simp: ebind_Inr_iff split: if_splits prod.splits)
qed

lemma psize_sh_offset: "psize (s\<lparr>sh_offset := w\<rparr>) = psize s"
  by (simp add: psize_def size_sec_def split: section_class.splits option.splits)

lemma ComputeOffsets_visit_unfold:
  "ComputeOffsets_visit elf1 off s =
     (if cls s = PhdrsSection then Inr (s\<lparr>sh_offset := e_phoff elf1\<rparr>, off)
      else if cls s = EhdrSection then Inr (s\<lparr>sh_offset := 0\<rparr>, off)
      else if sh_type s = SHT_NULL then Inr (s, off)
      else ebind (align off (uint (sh_addralign s))) (\<lambda>offset1.
             Inr (s\<lparr>sh_offset := of_int offset1\<rparr>, offset1 + int (psize s))))"
  by (simp add: ComputeOffsets_visit_def ComputeOffsets_visit_Section_def
      split: section_class.splits)

lemma ComputeOffsets_visit_cases:
  assumes "ComputeOffsets_visit elf1 off s = Inr (s', off')"
  obtains (laid) o' where "laid_out s \<or> deleted s" "cls s \<noteq> EhdrSection" "cls s \<noteq> PhdrsSection"
      "sh_type s \<noteq> SHT_NULL"
      "align off (uint (sh_addralign s)) = Inr o'" "s' = s\<lparr>sh_offset := of_int o'\<rparr>"
      "off' = o' + int (psize s)"
    | (null) "cls s \<noteq> EhdrSection" "cls s \<noteq> PhdrsSection" "sh_type s = SHT_NULL" "s' = s" "off' = off"
    | (ehdr) "cls s = EhdrSection" "s' = s\<lparr>sh_offset := 0\<rparr>" "off' = off"
    | (phdrs) "cls s = PhdrsSection" "s' = s\<lparr>sh_offset := e_phoff elf1\<rparr>" "off' = off"
proof (cases "cls s = PhdrsSection")
  case True
  with assms have "s' = s\<lparr>sh_offset := e_phoff elf1\<rparr>" "off' = off"
    by (simp_all add: ComputeOffsets_visit_unfold)
  with True show ?thesis by (rule phdrs)
next
  case np: False
  show ?thesis
  proof (cases "cls s = EhdrSection")
    case True
    with assms np have "s' = s\<lparr>sh_offset := 0\<rparr>" "off' = off"
      by (simp_all add: ComputeOffsets_visit_unfold)
    with True show ?thesis by (rule ehdr)
  next
    case ne: False
    show ?thesis
    proof (cases "sh_type s = SHT_NULL")
      case True
      with assms np ne have "s' = s" "off' = off"
        by (simp_all add: ComputeOffsets_visit_unfold)
      with ne np True show ?thesis by (rule null)
    next
      case nn: False
      from assms np ne nn obtain o' where
        "align off (uint (sh_addralign s)) = Inr o'"
        "Inr (s\<lparr>sh_offset := of_int o'\<rparr>, o' + int (psize s)) = (Inr (s', off') :: py_error + _)"
        by (simp only: ComputeOffsets_visit_unfold if_False ebind_Inr_iff) blast
      moreover from this(2) have "s' = s\<lparr>sh_offset := of_int o'\<rparr>" "off' = o' + int (psize s)"
        by simp_all
      moreover have "laid_out s \<or> deleted s" using np ne nn by (simp add: laid_out_def)
      ultimately show ?thesis using ne np nn by (intro laid) 
    qed
  qed
qed

lemma ComputeOffsets_visit_props:
  assumes "ComputeOffsets_visit elf1 off s = Inr (s', off')"
  shows "off \<le> off' \<and> cls s' = cls s \<and> deleted s' = deleted s
    \<and> sh_type s' = sh_type s \<and> sh_addralign s' = sh_addralign s \<and> psize s' = psize s
    \<and> (laid_out s \<longrightarrow> (\<exists>o'. sh_offset s' = of_int o' \<and> off \<le> o' \<and> off' = o' + int (psize s)
                        \<and> uint (sh_addralign s) dvd o'))
    \<and> (cls s = EhdrSection \<longrightarrow> sh_offset s' = 0)
    \<and> (cls s = PhdrsSection \<longrightarrow> sh_offset s' = e_phoff elf1)"
  using assms
proof (cases rule: ComputeOffsets_visit_cases)
  case (laid o')
  from align_props[OF laid(5)] have "off \<le> o'" "uint (sh_addralign s) dvd o'" by simp_all
  with laid show ?thesis by (auto simp: psize_sh_offset)
next
  case null
  then show ?thesis by (auto simp: laid_out_def)
next
  case ehdr
  then show ?thesis by (auto simp: psize_sh_offset laid_out_def)
next
  case phdrs
  then show ?thesis by (auto simp: psize_sh_offset laid_out_def)
qed

lemma offset_placed_mono: "offset_placed lo hi s s' \<Longrightarrow> lo' \<le> lo \<Longrightarrow> hi \<le> hi' \<Longrightarrow> offset_placed lo' hi' s s'"
  unfolding offset_placed_def by force

lemma ComputeOffsets_list:
  assumes "visit_list deleted (ComputeOffsets_visit elf1) off secs = Inr (secs', off')"
  shows "off \<le> off' \<and> length secs' = length secs
    \<and> (\<forall>i<length secs.
          cls (secs' ! i) = cls (secs ! i) \<and> deleted (secs' ! i) = deleted (secs ! i)
          \<and> sh_type (secs' ! i) = sh_type (secs ! i)
          \<and> sh_addralign (secs' ! i) = sh_addralign (secs ! i)
          \<and> psize (secs' ! i) = psize (secs ! i)
          \<and> (laid_out (secs ! i) \<longrightarrow> offset_placed off off' (secs ! i) (secs' ! i))
          \<and> (\<not> deleted (secs ! i) \<and> cls (secs ! i) = EhdrSection \<longrightarrow> sh_offset (secs' ! i) = 0)
          \<and> (\<not> deleted (secs ! i) \<and> cls (secs ! i) = PhdrsSection
               \<longrightarrow> sh_offset (secs' ! i) = e_phoff elf1))"
  using assms
proof (induction secs arbitrary: off secs' off')
  case Nil
  then show ?case by simp
next
  case (Cons n ns)
  show ?case
  proof (cases "deleted n")
    case True
    with Cons.prems obtain ns' where r: "visit_list deleted (ComputeOffsets_visit elf1) off ns = Inr (ns', off')"
      and s: "secs' = n # ns'"
      by (auto simp: ebind_Inr_iff)
    from Cons.IH[OF r] True show ?thesis
      unfolding s by (simp add: All_less_Suc2 laid_out_def)
  next
    case False
    with Cons.prems obtain n' st1 ns' where h: "ComputeOffsets_visit elf1 off n = Inr (n', st1)"
      and r: "visit_list deleted (ComputeOffsets_visit elf1) st1 ns = Inr (ns', off')"
      and s: "secs' = n' # ns'"
      by (auto simp: ebind_Inr_iff)
    note p = ComputeOffsets_visit_props[OF h]
    note ih = Cons.IH[OF r]
    have le: "off \<le> st1" "st1 \<le> off'" using p ih by simp_all
    have head: "laid_out n \<longrightarrow> offset_placed off off' n n'"
    proof
      assume "laid_out n"
      with p obtain o' where "sh_offset n' = of_int o'" "off \<le> o'" "st1 = o' + int (psize n)"
        "uint (sh_addralign n) dvd o'" by blast
      with le show "offset_placed off off' n n'" unfolding offset_placed_def by auto
    qed
    have tail: "\<forall>i<length ns. laid_out (ns ! i) \<longrightarrow> offset_placed off off' (ns ! i) (ns' ! i)"
      using ih le offset_placed_mono[where lo' = off and hi' = off'] by (metis order_refl)
    show ?thesis
      unfolding s using p ih le head tail by (simp add: All_less_Suc2)
  qed
qed

lemma uint_of_int_32: "0 \<le> k \<Longrightarrow> k < 2 ^ 32 \<Longrightarrow> uint (of_int k :: word32) = k"
  by (simp add: uint_word_of_int_eq take_bit_int_eq_self)

lemma ComputeOffsets_pair:
  assumes run: "visit_list deleted (ComputeOffsets_visit elf1) off secs = Inr (secs', off')"
    and ij: "i < j" "j < length secs"
    and li: "laid_out (secs ! i)" and lj: "laid_out (secs ! j)"
  shows "\<exists>oi oj. sh_offset (secs' ! i) = of_int oi \<and> sh_offset (secs' ! j) = of_int oj
           \<and> off \<le> oi \<and> oi + int (psize (secs ! i)) \<le> oj \<and> oj + int (psize (secs ! j)) \<le> off'
           \<and> uint (sh_addralign (secs ! i)) dvd oi \<and> uint (sh_addralign (secs ! j)) dvd oj"
proof -
  define xs where "xs = take j secs"
  define ys where "ys = drop j secs"
  have secs: "secs = xs @ ys" by (simp add: xs_def ys_def)
  have lx: "length xs = j" using ij by (simp add: xs_def)
  have ly: "0 < length ys" using ij by (simp add: ys_def)
  from run obtain xs' off1 ys' where
    rx: "visit_list deleted (ComputeOffsets_visit elf1) off xs = Inr (xs', off1)" and
    ry: "visit_list deleted (ComputeOffsets_visit elf1) off1 ys = Inr (ys', off')" and
    s': "secs' = xs' @ ys'"
    unfolding secs visit_list_append by (auto simp: ebind_Inr_iff)
  note px = ComputeOffsets_list[OF rx]
  note py = ComputeOffsets_list[OF ry]
  have lx': "length xs' = j" using px lx by simp
  have xi: "xs ! i = secs ! i" using ij by (simp add: xs_def)
  have yj: "ys ! 0 = secs ! j" using ij by (simp add: ys_def)
  have xi': "secs' ! i = xs' ! i" using ij lx' by (simp add: s' nth_append)
  have yj': "secs' ! j = ys' ! 0" using lx' by (simp add: s' nth_append)
  have "offset_placed off off1 (secs ! i) (secs' ! i)"
    using px ij lx li xi xi' by auto
  moreover have "offset_placed off1 off' (secs ! j) (secs' ! j)"
    using py ly lj yj yj' by auto
  ultimately show ?thesis unfolding offset_placed_def by force
qed

lemma ComputeOffsets_laid_out:
  assumes "visit_list deleted (ComputeOffsets_visit elf1) off secs = Inr (secs', off')"
    and "i < length secs"
  shows "laid_out (secs' ! i) = laid_out (secs ! i)"
  using ComputeOffsets_list[OF assms(1)] assms(2) by (simp add: laid_out_def)

text \<open>
  Claim C6, amended. When \<^verbatim>\<open>ComputeOffsets\<close> returns and the final offset fits the 32-bit
  fields: \<^verbatim>\<open>e_phoff\<close> is a multiple of 4 at or after \<^verbatim>\<open>e_ehsize\<close>; the section list keeps its
  length; a pseudo-section that is not deleted has offset 0 (\<^verbatim>\<open>EhdrSection\<close>) or \<^verbatim>\<open>e_phoff\<close>
  (\<^verbatim>\<open>PhdrsSection\<close>); every section the pass lays out (not deleted, not a pseudo-section, not
  \<^verbatim>\<open>SHT_NULL\<close>) has an offset that is a multiple of its \<^verbatim>\<open>sh_addralign\<close>, at or after the end
  \<^verbatim>\<open>e_phoff + e_phnum * e_phentsize\<close> of the program header table, and its interval
  \<^verbatim>\<open>[sh_offset, sh_offset + psize)\<close> ends at or before the offset of every laid-out section
  that follows it in the list.
\<close>

theorem C6_offsets_disjoint:
  assumes run: "ComputeOffsets_visit_Elf sh_align elffile = Inr (elf', offset)"
    and fit: "offset < 2 ^ 32"
  shows "alignment_Phdr dvd uint (e_phoff elf')
       \<and> uint (e_ehsize elf') \<le> uint (e_phoff elf')
       \<and> length (sections elf') = length (sections elffile)
       \<and> (\<forall>i<length (sections elf').
            (\<not> deleted (sections elf' ! i) \<and> cls (sections elf' ! i) = EhdrSection
               \<longrightarrow> sh_offset (sections elf' ! i) = 0)
          \<and> (\<not> deleted (sections elf' ! i) \<and> cls (sections elf' ! i) = PhdrsSection
               \<longrightarrow> sh_offset (sections elf' ! i) = e_phoff elf')
          \<and> (laid_out (sections elf' ! i) \<longrightarrow>
                uint (sh_addralign (sections elf' ! i)) dvd uint (sh_offset (sections elf' ! i))
              \<and> uint (e_phoff elf') + uint (e_phnum elf') * uint (e_phentsize elf')
                  \<le> uint (sh_offset (sections elf' ! i))
              \<and> (\<forall>j<length (sections elf'). i < j \<and> laid_out (sections elf' ! j) \<longrightarrow>
                    uint (sh_offset (sections elf' ! i)) + int (psize (sections elf' ! i))
                      \<le> uint (sh_offset (sections elf' ! j)))))"
proof -
  from run obtain offset1 offset3 secs offset4 offset5 where
    a1: "align (uint (e_ehsize elffile)) alignment_Phdr = Inr offset1" and
    a3: "align (offset1 + uint (e_phnum elffile) * uint (e_phentsize elffile)) sh_align = Inr offset3" and
    vl: "visit_list deleted (ComputeOffsets_visit (elffile\<lparr>e_phoff := of_int offset1\<rparr>)) offset3
           (sections elffile) = Inr (secs, offset4)" and
    a5: "align offset4 alignment_Shdr = Inr offset5" and
    e': "elf' = elffile\<lparr>e_phoff := of_int offset1, sections := secs, e_shoff := of_int offset5\<rparr>" and
    off: "offset = offset5 + uint (e_shnum elffile) * uint (e_shentsize elffile)"
    by (auto simp: ComputeOffsets_visit_Elf_def ebind_Inr_iff Let_def)
  note p1 = align_props[OF a1]
  note p3 = align_props[OF a3]
  note p5 = align_props[OF a5]
  note l = ComputeOffsets_list[OF vl]
  have len: "length secs = length (sections elffile)" using l by simp
  have nn: "0 \<le> uint (e_shnum elffile) * uint (e_shentsize elffile)"
    "0 \<le> uint (e_phnum elffile) * uint (e_phentsize elffile)" by simp_all
  have c0: "0 \<le> offset1" using p1(3) uint_ge_0[of "e_ehsize elffile"] by linarith
  have c1: "offset1 \<le> offset3" using p3(3) nn by linarith
  have c34: "offset3 \<le> offset4" using l by simp
  have c2: "offset4 < 2 ^ 32" using p5(3) off nn fit by linarith
  have b1: "offset1 < 2 ^ 32" using c1 c34 c2 by linarith
  have u1: "uint (of_int offset1 :: word32) = offset1" using c0 b1 by (simp add: uint_of_int_32)
  have se: "sections elf' = secs" "e_phoff elf' = of_int offset1" "e_ehsize elf' = e_ehsize elffile"
    "e_phnum elf' = e_phnum elffile" "e_phentsize elf' = e_phentsize elffile"
    by (simp_all add: e')
  have g1: "alignment_Phdr dvd uint (e_phoff elf')" using p1(2) by (simp add: se u1)
  have g2: "uint (e_ehsize elf') \<le> uint (e_phoff elf')" using p1(3) by (simp add: se u1)
  have g3: "length (sections elf') = length (sections elffile)" by (simp add: se len)
  have each: "(\<not> deleted (secs ! i) \<and> cls (secs ! i) = EhdrSection \<longrightarrow> sh_offset (secs ! i) = 0)
          \<and> (\<not> deleted (secs ! i) \<and> cls (secs ! i) = PhdrsSection
               \<longrightarrow> sh_offset (secs ! i) = of_int offset1)
          \<and> (laid_out (secs ! i) \<longrightarrow>
                uint (sh_addralign (secs ! i)) dvd uint (sh_offset (secs ! i))
              \<and> offset1 + uint (e_phnum elffile) * uint (e_phentsize elffile)
                  \<le> uint (sh_offset (secs ! i))
              \<and> (\<forall>j<length secs. i < j \<and> laid_out (secs ! j) \<longrightarrow>
                    uint (sh_offset (secs ! i)) + int (psize (secs ! i)) \<le> uint (sh_offset (secs ! j))))"
    if i: "i < length secs" for i
  proof -
    have il: "i < length (sections elffile)" using i len by simp
    have f: "cls (secs ! i) = cls (sections elffile ! i)"
      "deleted (secs ! i) = deleted (sections elffile ! i)"
      "sh_addralign (secs ! i) = sh_addralign (sections elffile ! i)"
      "psize (secs ! i) = psize (sections elffile ! i)"
      using l il by simp_all
    have lo: "laid_out (secs ! i) = laid_out (sections elffile ! i)"
      using ComputeOffsets_laid_out[OF vl il] .
    have q1: "\<not> deleted (secs ! i) \<and> cls (secs ! i) = EhdrSection \<longrightarrow> sh_offset (secs ! i) = 0"
      using l il f by simp
    have q2: "\<not> deleted (secs ! i) \<and> cls (secs ! i) = PhdrsSection
               \<longrightarrow> sh_offset (secs ! i) = of_int offset1"
      using l il f by simp
    have q3: "uint (sh_addralign (secs ! i)) dvd uint (sh_offset (secs ! i))
              \<and> offset1 + uint (e_phnum elffile) * uint (e_phentsize elffile)
                  \<le> uint (sh_offset (secs ! i))
              \<and> (\<forall>j<length secs. i < j \<and> laid_out (secs ! j) \<longrightarrow>
                    uint (sh_offset (secs ! i)) + int (psize (secs ! i)) \<le> uint (sh_offset (secs ! j)))"
      if li': "laid_out (secs ! i)"
    proof -
      from li' lo have li: "laid_out (sections elffile ! i)" by simp
      with l il have "offset_placed offset3 offset4 (sections elffile ! i) (secs ! i)" by simp
      then obtain oi where oi: "sh_offset (secs ! i) = of_int oi" "offset3 \<le> oi"
        "oi + int (psize (sections elffile ! i)) \<le> offset4"
        "uint (sh_addralign (sections elffile ! i)) dvd oi"
        unfolding offset_placed_def by blast
      have bi: "0 \<le> oi" "oi < 2 ^ 32" using oi c0 c1 c2 by linarith+
      have ui: "uint (sh_offset (secs ! i)) = oi" using oi(1) bi by (simp add: uint_of_int_32)
      have r1: "uint (sh_addralign (secs ! i)) dvd uint (sh_offset (secs ! i))"
        using oi(4) by (simp add: ui f)
      have r2: "offset1 + uint (e_phnum elffile) * uint (e_phentsize elffile)
                  \<le> uint (sh_offset (secs ! i))"
        using p3(3) oi(2) by (simp add: ui)
      have r3: "uint (sh_offset (secs ! i)) + int (psize (secs ! i)) \<le> uint (sh_offset (secs ! j))"
        if j: "j < length secs" "i < j" "laid_out (secs ! j)" for j
      proof -
        have jl: "j < length (sections elffile)" using j len by simp
        have lj: "laid_out (sections elffile ! j)"
          using ComputeOffsets_laid_out[OF vl jl] j(3) by simp
        from ComputeOffsets_pair[OF vl j(2) jl li lj] obtain xi xj where o:
          "sh_offset (secs ! i) = of_int xi" "sh_offset (secs ! j) = of_int xj"
          "offset3 \<le> xi" "xi + int (psize (sections elffile ! i)) \<le> xj"
          "xj + int (psize (sections elffile ! j)) \<le> offset4"
          by blast
        have bxi: "0 \<le> xi" "xi < 2 ^ 32" using o c0 c1 c2 by linarith+
        have bxj: "0 \<le> xj" "xj < 2 ^ 32" using o c0 c1 c2 by linarith+
        have "uint (sh_offset (secs ! i)) = xi" using o(1) bxi by (simp add: uint_of_int_32)
        moreover have "uint (sh_offset (secs ! j)) = xj" using o(2) bxj by (simp add: uint_of_int_32)
        ultimately show ?thesis using o(4) by (simp add: f)
      qed
      from r1 r2 r3 show ?thesis by blast
    qed
    from q1 q2 q3 show ?thesis by blast
  qed
  have g4: "\<forall>i<length (sections elf').
            (\<not> deleted (sections elf' ! i) \<and> cls (sections elf' ! i) = EhdrSection
               \<longrightarrow> sh_offset (sections elf' ! i) = 0)
          \<and> (\<not> deleted (sections elf' ! i) \<and> cls (sections elf' ! i) = PhdrsSection
               \<longrightarrow> sh_offset (sections elf' ! i) = e_phoff elf')
          \<and> (laid_out (sections elf' ! i) \<longrightarrow>
                uint (sh_addralign (sections elf' ! i)) dvd uint (sh_offset (sections elf' ! i))
              \<and> uint (e_phoff elf') + uint (e_phnum elf') * uint (e_phentsize elf')
                  \<le> uint (sh_offset (sections elf' ! i))
              \<and> (\<forall>j<length (sections elf'). i < j \<and> laid_out (sections elf' ! j) \<longrightarrow>
                    uint (sh_offset (sections elf' ! i)) + int (psize (sections elf' ! i))
                      \<le> uint (sh_offset (sections elf' ! j))))"
    unfolding se u1 using each by blast
  from g1 g2 g3 g4 show ?thesis by blast
qed

theorem C6_offsets_disjoint_witness:
  "ComputeOffsets_visit_Elf 4096 (Elf_indexed [ex_null, ex_text, ex_rodata] [])
     = Inr ((Elf_indexed [ex_null, ex_text\<lparr>sh_offset := 4096\<rparr>, ex_rodata\<lparr>sh_offset := 4104\<rparr>] [])
            \<lparr>e_phoff := 52, e_shoff := 4108\<rparr>, 4228)
   \<and> laid_out (ex_text\<lparr>sh_offset := 4096\<rparr>) \<and> laid_out (ex_rodata\<lparr>sh_offset := 4104\<rparr>)
   \<and> uint (sh_addralign (ex_text\<lparr>sh_offset := 4096\<rparr>)) dvd uint (sh_offset (ex_text\<lparr>sh_offset := 4096\<rparr>))
   \<and> uint (sh_offset (ex_text\<lparr>sh_offset := 4096\<rparr>)) + int (psize (ex_text\<lparr>sh_offset := 4096\<rparr>))
        \<le> uint (sh_offset (ex_rodata\<lparr>sh_offset := 4104\<rparr>))"
proof -
  let ?E = "Elf_indexed [ex_null, ex_text, ex_rodata] []"
  let ?L = "[ex_null, ex_text\<lparr>sh_offset := 4096\<rparr>, ex_rodata\<lparr>sh_offset := 4104\<rparr>]"
  let ?E' = "(Elf_indexed ?L [])\<lparr>e_phoff := 52, e_shoff := 4108\<rparr>"
  have run: "ComputeOffsets_visit_Elf 4096 ?E = Inr (?E', 4228)" by code_simp
  have s: "sections ?E' = ?L" by (simp add: Elf_indexed_def)
  have n: "(1::nat) < length ?L" "(2::nat) < length ?L" "?L ! 1 = ex_text\<lparr>sh_offset := 4096\<rparr>"
    "?L ! 2 = ex_rodata\<lparr>sh_offset := 4104\<rparr>" by simp_all
  have l: "laid_out (?L ! 1)" "laid_out (?L ! 2)" unfolding n by code_simp+
  have fit: "(4228::int) < 2 ^ 32" by simp
  from C6_offsets_disjoint[OF run fit, unfolded s] have a:
    "\<forall>i<length ?L. laid_out (?L ! i) \<longrightarrow>
        uint (sh_addralign (?L ! i)) dvd uint (sh_offset (?L ! i))
        \<and> (\<forall>j<length ?L. i < j \<and> laid_out (?L ! j) \<longrightarrow>
              uint (sh_offset (?L ! i)) + int (psize (?L ! i)) \<le> uint (sh_offset (?L ! j)))"
    by blast
  from a n(1) l(1) have b: "uint (sh_addralign (?L ! 1)) dvd uint (sh_offset (?L ! 1))"
    "\<forall>j<length ?L. 1 < j \<and> laid_out (?L ! j) \<longrightarrow>
        uint (sh_offset (?L ! 1)) + int (psize (?L ! 1)) \<le> uint (sh_offset (?L ! j))"
    by blast+
  from b(2) n(2) l(2) have c:
    "uint (sh_offset (?L ! 1)) + int (psize (?L ! 1)) \<le> uint (sh_offset (?L ! 2))"
    by (metis one_less_numeral_iff semiring_norm(76))
  from run l b(1) c show ?thesis unfolding n by blast
qed

text \<open>
  The claim as stated, for any two distinct sections, fails on the sections the pass skips: a
  section of type \<^verbatim>\<open>SHT_NULL\<close> keeps the offset it was read with, here 4098 with alignment 4
  and 16 bytes, and the next section is laid out at 4096 inside it.
\<close>

theorem C6_counterexample:
  "ComputeOffsets_visit_Elf 4096 (Elf_indexed [ex_null, ex_text] [])
     = Inr ((Elf_indexed [ex_null, ex_text\<lparr>sh_offset := 4096\<rparr>] [])\<lparr>e_phoff := 52, e_shoff := 4100\<rparr>, 4180)
   \<and> \<not> deleted ex_null
   \<and> \<not> uint (sh_addralign ex_null) dvd uint (sh_offset ex_null)
   \<and> uint (sh_offset (ex_text\<lparr>sh_offset := 4096\<rparr>)) < uint (sh_offset ex_null) + int (psize ex_null)
   \<and> uint (sh_offset ex_null)
        < uint (sh_offset (ex_text\<lparr>sh_offset := 4096\<rparr>)) + int (psize (ex_text\<lparr>sh_offset := 4096\<rparr>))"
  by code_simp

section \<open>\<^verbatim>\<open>ComputeAddresses\<close>\<close>

lemma has_flag_upd [simp]:
  "has_flag (s\<lparr>sh_size := x\<rparr>) f = has_flag s f"
  "has_flag (s\<lparr>sh_addr := y\<rparr>) f = has_flag s f"
  "has_flag (s\<lparr>paddr := z\<rparr>) f = has_flag s f"
  by (simp_all add: has_flag_def)

lemma size_sec_upd [simp]:
  "size_sec (s\<lparr>sh_addr := y\<rparr>) = size_sec s"
  "size_sec (s\<lparr>paddr := z\<rparr>) = size_sec s"
  by (simp_all add: size_sec_def split: section_class.splits option.splits)

lemma psize_upd [simp]:
  "psize (s\<lparr>sh_addr := y\<rparr>) = psize s"
  "psize (s\<lparr>paddr := z\<rparr>) = psize s"
  by (simp_all add: psize_def)

lemma size_sec_idem [simp]: "size_sec (s\<lparr>sh_size := of_nat (size_sec s)\<rparr>) = size_sec s"
  by (simp add: size_sec_def unat_of_nat split: section_class.splits option.splits)

lemma psize_idem [simp]: "psize (s\<lparr>sh_size := of_nat (size_sec s)\<rparr>) = psize s"
  by (simp add: psize_def)

lemma visit_Section_not_alloc:
  assumes "\<not> has_flag s0 SHF_ALLOC"
  shows "ComputeAddresses_visit_Section c s0 = Inr (s0\<lparr>sh_size := of_nat (size_sec s0)\<rparr>, c)"
  using assms by (simp add: ComputeAddresses_visit_Section_def Let_def)

lemma visit_Section_ro:
  assumes "\<not> fixed s0" "has_flag s0 SHF_ALLOC" "\<not> has_flag s0 SHF_WRITE"
  shows "ComputeAddresses_visit_Section c s0 =
     ebind (align (next_flash c) (uint (sh_addralign s0))) (\<lambda>p.
     ebind (align (int (psize s0)) (uint (sh_addralign s0))) (\<lambda>ap.
     Inr (s0\<lparr>sh_size := of_nat (size_sec s0), paddr := Some p, sh_addr := of_int p\<rparr>,
          c\<lparr>next_flash := p + ap\<rparr>)))"
  using assms
  by (simp add: ComputeAddresses_visit_Section_def Let_def ebind_def split: sum.splits)

lemma visit_Section_rw:
  assumes "\<not> fixed s0" "has_flag s0 SHF_ALLOC" "has_flag s0 SHF_WRITE"
  shows "ComputeAddresses_visit_Section c s0 =
     ebind (align (next_ram c) (uint (sh_addralign s0))) (\<lambda>v.
     ebind (align (int (size_sec s0)) (uint (sh_addralign s0))) (\<lambda>av.
     if sh_type s0 \<noteq> SHT_NOBITS then
       ebind (align (next_flash c) (uint (sh_addralign s0))) (\<lambda>p.
       ebind (align (int (psize s0)) (uint (sh_addralign s0))) (\<lambda>ap.
       Inr (s0\<lparr>sh_size := of_nat (size_sec s0), sh_addr := of_int v, paddr := Some p\<rparr>,
            c\<lparr>next_ram := uint (of_int v :: word32) + av, next_flash := p + ap\<rparr>)))
     else
       Inr (s0\<lparr>sh_size := of_nat (size_sec s0), sh_addr := of_int v,
               paddr := Some (uint (of_int v :: word32))\<rparr>,
            c\<lparr>next_ram := uint (of_int v :: word32) + av\<rparr>)))"
  using assms
  by (simp add: ComputeAddresses_visit_Section_def Let_def ebind_def split: sum.splits)

lemma visit_Section_fixed_eq:
  assumes "fixed s0" "has_flag s0 SHF_ALLOC"
  shows "ComputeAddresses_visit_Section c s0 =
     ebind (if has_flag s0 SHF_WRITE then
              ebind (align (int (size_sec s0)) (uint (sh_addralign s0))) (\<lambda>v.
              Inr (c\<lparr>next_ram := uint (sh_addr s0) + v\<rparr>))
            else Inr c) (\<lambda>c1.
     ebind (if \<not> has_flag s0 SHF_WRITE \<or> sh_type s0 \<noteq> SHT_NOBITS then
              (case paddr s0 of
                 None \<Rightarrow> Inl AttributeError
               | Some p \<Rightarrow>
                   ebind (align (int (psize s0)) (uint (sh_addralign s0))) (\<lambda>v.
                   Inr (c1\<lparr>next_flash := p + v\<rparr>)))
            else Inr c1) (\<lambda>c2.
     Inr (s0\<lparr>sh_size := of_nat (size_sec s0)\<rparr>, c2)))"
proof -
  let ?a = "uint (sh_addralign s0)"
  note f = assms
  have ro: ?thesis if w: "\<not> has_flag s0 SHF_WRITE"
  proof (cases "paddr s0")
    case None
    with f w show ?thesis by (simp add: ComputeAddresses_visit_Section_def Let_def ebind_def)
  next
    case (Some p)
    show ?thesis
    proof (cases "align (int (psize s0)) ?a")
      case (Inl e)
      with f w Some show ?thesis by (simp add: ComputeAddresses_visit_Section_def Let_def ebind_def)
    next
      case (Inr v)
      with f w Some show ?thesis by (simp add: ComputeAddresses_visit_Section_def Let_def ebind_def)
    qed
  qed
  have rw: ?thesis if w: "has_flag s0 SHF_WRITE"
  proof (cases "align (int (size_sec s0)) ?a")
    case (Inl e)
    with f w show ?thesis by (simp add: ComputeAddresses_visit_Section_def Let_def ebind_def)
  next
    case sz: (Inr av)
    show ?thesis
    proof (cases "sh_type s0 = SHT_NOBITS")
      case True
      with f w sz show ?thesis by (simp add: ComputeAddresses_visit_Section_def Let_def ebind_def)
    next
      case nb: False
      show ?thesis
      proof (cases "paddr s0")
        case None
        with f w sz nb show ?thesis by (simp add: ComputeAddresses_visit_Section_def Let_def ebind_def)
      next
        case (Some p)
        show ?thesis
        proof (cases "align (int (psize s0)) ?a")
          case (Inl e)
          with f w sz nb Some show ?thesis by (simp add: ComputeAddresses_visit_Section_def Let_def ebind_def)
        next
          case (Inr v)
          with f w sz nb Some show ?thesis by (simp add: ComputeAddresses_visit_Section_def Let_def ebind_def)
        qed
      qed
    qed
  qed
  from ro rw show ?thesis by blast
qed

lemma visit_Section_fixed:
  assumes "fixed s0"
    and "ComputeAddresses_visit_Section c s0 = Inr (s', c')"
  shows "s' = s0\<lparr>sh_size := of_nat (size_sec s0)\<rparr>"
proof (cases "has_flag s0 SHF_ALLOC")
  case False
  with assms(2) show ?thesis by (simp add: visit_Section_not_alloc)
next
  case True
  from assms(2) show ?thesis
    unfolding visit_Section_fixed_eq[OF assms(1) True]
    by (auto simp: ebind_Inr_iff)
qed

lemma Inr_pair_eq: "Inr (a, b) = (Inr (a', b') :: 'e + 'a \<times> 'b) \<longleftrightarrow> a = a' \<and> b = b'"
  by simp

lemma visit_Section_ro_shape:
  assumes h: "ComputeAddresses_visit_Section c s0 = Inr (s', c')"
    and f: "\<not> fixed s0" "has_flag s0 SHF_ALLOC" "\<not> has_flag s0 SHF_WRITE"
  shows "\<exists>p ap. align (next_flash c) (uint (sh_addralign s0)) = Inr p
     \<and> align (int (psize s0)) (uint (sh_addralign s0)) = Inr ap
     \<and> s' = s0\<lparr>sh_size := of_nat (size_sec s0), paddr := Some p, sh_addr := of_int p\<rparr>
     \<and> c' = c\<lparr>next_flash := p + ap\<rparr>"
  using h unfolding visit_Section_ro[OF f] ebind_Inr_iff Inr_pair_eq by blast

lemma visit_Section_rw_shape:
  assumes h: "ComputeAddresses_visit_Section c s0 = Inr (s', c')"
    and f: "\<not> fixed s0" "has_flag s0 SHF_ALLOC" "has_flag s0 SHF_WRITE"
  shows "\<exists>v av. align (next_ram c) (uint (sh_addralign s0)) = Inr v
     \<and> align (int (size_sec s0)) (uint (sh_addralign s0)) = Inr av
     \<and> (if sh_type s0 \<noteq> SHT_NOBITS then
          (\<exists>p ap. align (next_flash c) (uint (sh_addralign s0)) = Inr p
            \<and> align (int (psize s0)) (uint (sh_addralign s0)) = Inr ap
            \<and> s' = s0\<lparr>sh_size := of_nat (size_sec s0), sh_addr := of_int v, paddr := Some p\<rparr>
            \<and> c' = c\<lparr>next_ram := uint (of_int v :: word32) + av, next_flash := p + ap\<rparr>)
        else
          s' = s0\<lparr>sh_size := of_nat (size_sec s0), sh_addr := of_int v,
                  paddr := Some (uint (of_int v :: word32))\<rparr>
          \<and> c' = c\<lparr>next_ram := uint (of_int v :: word32) + av\<rparr>)"
proof (cases "sh_type s0 \<noteq> SHT_NOBITS")
  case True
  from h show ?thesis
    unfolding visit_Section_rw[OF f] if_P[OF True] ebind_Inr_iff Inr_pair_eq by blast
next
  case False
  from h show ?thesis
    unfolding visit_Section_rw[OF f] if_not_P[OF False] ebind_Inr_iff Inr_pair_eq by blast
qed

lemma unchanged_refl: "unchanged s s"
  by (simp add: unchanged_def)

lemma unchanged_trans: "unchanged s t \<Longrightarrow> unchanged t u \<Longrightarrow> unchanged s u"
  by (simp add: unchanged_def)

lemma unchanged_upd:
  "unchanged s (s\<lparr>sh_size := z\<rparr>)"
  "unchanged s (s\<lparr>sh_size := z, paddr := p, sh_addr := a\<rparr>)"
  "unchanged s (s\<lparr>sh_size := z, sh_addr := a, paddr := p\<rparr>)"
  by (simp_all add: unchanged_def)

lemma visit_Section_unchanged:
  assumes h: "ComputeAddresses_visit_Section c s0 = Inr (s', c')"
  shows "unchanged s0 s'"
proof (cases "fixed s0")
  case True
  from visit_Section_fixed[OF True h] show ?thesis by (simp only: unchanged_upd)
next
  case nf: False
  show ?thesis
  proof (cases "has_flag s0 SHF_ALLOC")
    case False
    from h[unfolded visit_Section_not_alloc[OF False] Inr_pair_eq]
    have "s' = s0\<lparr>sh_size := of_nat (size_sec s0)\<rparr>" by simp
    then show ?thesis by (simp only: unchanged_upd)
  next
    case al: True
    show ?thesis
    proof (cases "has_flag s0 SHF_WRITE")
      case True
      from visit_Section_rw_shape[OF h nf al True] obtain z a p where
        "s' = s0\<lparr>sh_size := z, sh_addr := a, paddr := p\<rparr>"
        by (cases "sh_type s0 \<noteq> SHT_NOBITS") auto
      then show ?thesis by (simp only: unchanged_upd)
    next
      case False
      from visit_Section_ro_shape[OF h nf al False] obtain z a p where
        "s' = s0\<lparr>sh_size := z, paddr := p, sh_addr := a\<rparr>"
        by blast
      then show ?thesis by (simp only: unchanged_upd)
    qed
  qed
qed

lemma visit_Section_rw_props:
  assumes h: "ComputeAddresses_visit_Section c s0 = Inr (s', c')"
    and f: "\<not> fixed s0" "has_flag s0 SHF_ALLOC" "has_flag s0 SHF_WRITE"
    and fit: "align (next_ram c) (uint (sh_addralign s0)) = Inr (uint (sh_addr s'))"
  shows "addr_placed c c' s' \<and> next_flash c \<le> next_flash c' \<and> next_ram c \<le> next_ram c'"
proof -
  from visit_Section_rw_shape[OF h f] obtain v av where
    a: "align (next_ram c) (uint (sh_addralign s0)) = Inr v" and
    b: "align (int (size_sec s0)) (uint (sh_addralign s0)) = Inr av" and
    r: "if sh_type s0 \<noteq> SHT_NOBITS then
          (\<exists>p ap. align (next_flash c) (uint (sh_addralign s0)) = Inr p
            \<and> align (int (psize s0)) (uint (sh_addralign s0)) = Inr ap
            \<and> s' = s0\<lparr>sh_size := of_nat (size_sec s0), sh_addr := of_int v, paddr := Some p\<rparr>
            \<and> c' = c\<lparr>next_ram := uint (of_int v :: word32) + av, next_flash := p + ap\<rparr>)
        else
          s' = s0\<lparr>sh_size := of_nat (size_sec s0), sh_addr := of_int v,
                  paddr := Some (uint (of_int v :: word32))\<rparr>
          \<and> c' = c\<lparr>next_ram := uint (of_int v :: word32) + av\<rparr>"
    by blast
  from a fit have v: "uint (sh_addr s') = v" by simp
  note pa = align_props[OF a]
  note pb = align_props[OF b]
  from visit_Section_unchanged[OF h] f(3)
  have al: "sh_addralign s' = sh_addralign s0" and w: "has_flag s' SHF_WRITE"
    by (simp_all add: unchanged_def has_flag_def)
  show ?thesis
  proof (cases "sh_type s0 \<noteq> SHT_NOBITS")
    case True
    with r obtain p ap where p: "align (next_flash c) (uint (sh_addralign s0)) = Inr p"
      and ap: "align (int (psize s0)) (uint (sh_addralign s0)) = Inr ap"
      and s': "s' = s0\<lparr>sh_size := of_nat (size_sec s0), sh_addr := of_int v, paddr := Some p\<rparr>"
      and c': "c' = c\<lparr>next_ram := uint (of_int v :: word32) + av, next_flash := p + ap\<rparr>"
      by auto
    note pp = align_props[OF p]
    note pap = align_props[OF ap]
    have v': "uint (of_int v :: word32) = v" using v by (simp add: s')
    have sz: "size_sec s' = size_sec s0" by (simp add: s')
    have nf: "next_flash c' = p + ap" "next_ram c' = v + av" by (simp_all add: c' v')
    have "0 \<le> ap" using pap(3) by linarith
    then show ?thesis
      unfolding addr_placed_def sz al nf v using pa pb pp w by simp
  next
    case False
    with r have s': "s' = s0\<lparr>sh_size := of_nat (size_sec s0), sh_addr := of_int v,
               paddr := Some (uint (of_int v :: word32))\<rparr>"
      and c': "c' = c\<lparr>next_ram := uint (of_int v :: word32) + av\<rparr>" by simp_all
    have v': "uint (of_int v :: word32) = v" using v by (simp add: s')
    have sz: "size_sec s' = size_sec s0" by (simp add: s')
    have nf: "next_flash c' = next_flash c" "next_ram c' = v + av" by (simp_all add: c' v')
    show ?thesis
      unfolding addr_placed_def sz al nf v using pa pb w by simp
  qed
qed

lemma visit_Section_ro_props:
  assumes h: "ComputeAddresses_visit_Section c s0 = Inr (s', c')"
    and f: "\<not> fixed s0" "has_flag s0 SHF_ALLOC" "\<not> has_flag s0 SHF_WRITE"
    and fit: "paddr s' = Some (uint (sh_addr s'))"
  shows "addr_placed c c' s' \<and> next_flash c \<le> next_flash c' \<and> next_ram c \<le> next_ram c'"
proof -
  from visit_Section_ro_shape[OF h f] obtain p ap where
    p: "align (next_flash c) (uint (sh_addralign s0)) = Inr p"
    and ap: "align (int (psize s0)) (uint (sh_addralign s0)) = Inr ap"
    and s': "s' = s0\<lparr>sh_size := of_nat (size_sec s0), paddr := Some p, sh_addr := of_int p\<rparr>"
    and c': "c' = c\<lparr>next_flash := p + ap\<rparr>"
    by blast
  note pp = align_props[OF p]
  note pap = align_props[OF ap]
  from visit_Section_unchanged[OF h] f(3)
  have al: "sh_addralign s' = sh_addralign s0" and w: "\<not> has_flag s' SHF_WRITE"
    by (simp_all add: unchanged_def has_flag_def)
  have v: "uint (sh_addr s') = p" using fit by (simp add: s')
  have sz: "psize s' = psize s0" by (simp add: s')
  have nf: "next_flash c' = p + ap" "next_ram c' = next_ram c" by (simp_all add: c')
  show ?thesis
    unfolding addr_placed_def sz al nf v using pp pap w by simp
qed

lemma ComputeAddresses_visit_dispatch:
  "\<exists>x. ComputeAddresses_visit e c s = ComputeAddresses_visit_Section c (s\<lparr>sh_size := x\<rparr>)"
proof (cases "cls s")
  case Section
  then have "ComputeAddresses_visit e c s = ComputeAddresses_visit_Section c s"
    by (simp add: ComputeAddresses_visit_def)
  then have "ComputeAddresses_visit e c s
      = ComputeAddresses_visit_Section c (s\<lparr>sh_size := sh_size s\<rparr>)" by simp
  then show ?thesis by (rule exI)
next
  case (EntrySection n k)
  then have "ComputeAddresses_visit e c s = ComputeAddresses_visit_Section c s"
    by (simp add: ComputeAddresses_visit_def)
  then have "ComputeAddresses_visit e c s
      = ComputeAddresses_visit_Section c (s\<lparr>sh_size := sh_size s\<rparr>)" by simp
  then show ?thesis by (rule exI)
next
  case EhdrSection
  then have "ComputeAddresses_visit e c s
      = ComputeAddresses_visit_Section c (s\<lparr>sh_size := of_nat (unat (e_ehsize e))\<rparr>)"
    by (simp add: ComputeAddresses_visit_def)
  then show ?thesis by (rule exI)
next
  case PhdrsSection
  then have "ComputeAddresses_visit e c s
      = ComputeAddresses_visit_Section c
          (s\<lparr>sh_size := of_nat (unat (e_phnum e) * unat (e_phentsize e))\<rparr>)"
    by (simp add: ComputeAddresses_visit_def)
  then show ?thesis by (rule exI)
qed

lemma addresses_fit_Cons:
  assumes "addresses_fit e c (s # ss)" "\<not> deleted s" "ComputeAddresses_visit e c s = Inr (s', c')"
  shows "addresses_fit e c' ss"
    and "\<not> fixed s \<Longrightarrow> has_flag s SHF_ALLOC \<Longrightarrow> has_flag s SHF_WRITE
         \<Longrightarrow> align (next_ram c) (uint (sh_addralign s)) = Inr (uint (sh_addr s'))"
    and "\<not> fixed s \<Longrightarrow> has_flag s SHF_ALLOC \<Longrightarrow> \<not> has_flag s SHF_WRITE
         \<Longrightarrow> paddr s' = Some (uint (sh_addr s'))"
  using assms by simp_all

lemma ComputeAddresses_step:
  assumes h: "ComputeAddresses_visit e c s = Inr (s', c')"
    and fit: "addresses_fit e c (s # ss)" and nd: "\<not> deleted s"
  shows "unchanged s s' \<and> addresses_fit e c' ss
    \<and> (\<not> pinned s \<longrightarrow> next_flash c \<le> next_flash c' \<and> next_ram c \<le> next_ram c')
    \<and> (placed s \<longrightarrow> addr_placed c c' s')"
proof -
  from ComputeAddresses_visit_dispatch[of e c s] obtain x where
    d: "ComputeAddresses_visit e c s = ComputeAddresses_visit_Section c (s\<lparr>sh_size := x\<rparr>)"
    by blast
  let ?s0 = "s\<lparr>sh_size := x\<rparr>"
  from h d have h0: "ComputeAddresses_visit_Section c ?s0 = Inr (s', c')" by simp
  have f0: "fixed ?s0 = fixed s" "sh_addralign ?s0 = sh_addralign s"
    "has_flag ?s0 SHF_ALLOC = has_flag s SHF_ALLOC" "has_flag ?s0 SHF_WRITE = has_flag s SHF_WRITE"
    by simp_all
  have u: "unchanged s s'"
    using unchanged_trans[OF unchanged_upd(1) visit_Section_unchanged[OF h0]] .
  note fc = addresses_fit_Cons[OF fit nd h]
  have pl: "addr_placed c c' s' \<and> next_flash c \<le> next_flash c' \<and> next_ram c \<le> next_ram c'"
    if p: "placed s"
  proof (cases "has_flag s SHF_WRITE")
    case True
    from p have q: "\<not> fixed s" "has_flag s SHF_ALLOC" by (simp_all add: placed_def)
    from fc(2)[OF q True] q True show ?thesis
      using visit_Section_rw_props[OF h0] unfolding f0 by blast
  next
    case False
    from p have q: "\<not> fixed s" "has_flag s SHF_ALLOC" by (simp_all add: placed_def)
    from fc(3)[OF q False] q False show ?thesis
      using visit_Section_ro_props[OF h0] unfolding f0 by blast
  qed
  have na: "c' = c" if "\<not> has_flag s SHF_ALLOC"
  proof -
    from that have "\<not> has_flag ?s0 SHF_ALLOC" by simp
    from h0[unfolded visit_Section_not_alloc[OF this] Inr_pair_eq] show ?thesis by simp
  qed
  have mono: "next_flash c \<le> next_flash c' \<and> next_ram c \<le> next_ram c'" if "\<not> pinned s"
  proof (cases "has_flag s SHF_ALLOC")
    case True
    with that nd have "placed s" by (simp add: placed_def pinned_def)
    with pl show ?thesis by blast
  next
    case False
    with na show ?thesis by simp
  qed
  from u fc(1) mono pl show ?thesis by blast
qed

lemma ComputeAddresses_visit_unchanged:
  assumes h: "ComputeAddresses_visit e c s = Inr (s', c')"
  shows "unchanged s s'"
proof -
  from ComputeAddresses_visit_dispatch[of e c s] obtain x where
    d: "ComputeAddresses_visit e c s = ComputeAddresses_visit_Section c (s\<lparr>sh_size := x\<rparr>)"
    by blast
  from h d have h0: "ComputeAddresses_visit_Section c (s\<lparr>sh_size := x\<rparr>) = Inr (s', c')" by simp
  show ?thesis
    using unchanged_trans[OF unchanged_upd(1) visit_Section_unchanged[OF h0]] .
qed

lemma addr_placed_mono:
  assumes "addr_placed c1 c2 s'"
    and "next_flash c0 \<le> next_flash c1" "next_ram c0 \<le> next_ram c1"
    and "next_flash c2 \<le> next_flash c3" "next_ram c2 \<le> next_ram c3"
  shows "addr_placed c0 c3 s'"
  using assms unfolding addr_placed_def by (cases "has_flag s' SHF_WRITE") simp_all

lemma ComputeAddresses_list_unchanged:
  assumes "visit_list deleted (ComputeAddresses_visit e) c secs = Inr (secs', c')"
  shows "length secs' = length secs \<and> (\<forall>i<length secs. unchanged (secs ! i) (secs' ! i))"
  using assms
proof (induction secs arbitrary: c secs' c')
  case Nil
  then show ?case by simp
next
  case (Cons n ns)
  show ?case
  proof (cases "deleted n")
    case True
    with Cons.prems obtain ns' where
      r: "visit_list deleted (ComputeAddresses_visit e) c ns = Inr (ns', c')"
      and s: "secs' = n # ns'"
      by (auto simp: ebind_Inr_iff)
    from Cons.IH[OF r] show ?thesis
      unfolding s by (simp add: All_less_Suc2 unchanged_refl)
  next
    case False
    with Cons.prems obtain n' c1 ns' where h: "ComputeAddresses_visit e c n = Inr (n', c1)"
      and r: "visit_list deleted (ComputeAddresses_visit e) c1 ns = Inr (ns', c')"
      and s: "secs' = n' # ns'"
      by (auto simp: ebind_Inr_iff)
    from Cons.IH[OF r] ComputeAddresses_visit_unchanged[OF h] show ?thesis
      unfolding s by (simp add: All_less_Suc2)
  qed
qed

lemma ComputeAddresses_window:
  assumes "visit_list deleted (ComputeAddresses_visit e) c secs = Inr (secs', c')"
    and "addresses_fit e c secs" and "\<forall>s\<in>set secs. \<not> pinned s"
  shows "next_flash c \<le> next_flash c' \<and> next_ram c \<le> next_ram c'
    \<and> (\<forall>i<length secs. placed (secs ! i) \<longrightarrow> addr_placed c c' (secs' ! i))"
  using assms
proof (induction secs arbitrary: c secs' c')
  case Nil
  then show ?case by simp
next
  case (Cons n ns)
  from Cons.prems(3) have np: "\<not> pinned n" "\<forall>s\<in>set ns. \<not> pinned s" by simp_all
  show ?case
  proof (cases "deleted n")
    case True
    with Cons.prems(1) obtain ns' where
      r: "visit_list deleted (ComputeAddresses_visit e) c ns = Inr (ns', c')"
      and s: "secs' = n # ns'"
      by (auto simp: ebind_Inr_iff)
    from Cons.prems(2) True have fit: "addresses_fit e c ns" by simp
    have "\<not> placed n" using True by (simp add: placed_def)
    with Cons.IH[OF r fit np(2)] show ?thesis
      unfolding s by (simp add: All_less_Suc2)
  next
    case False
    with Cons.prems(1) obtain n' c1 ns' where h: "ComputeAddresses_visit e c n = Inr (n', c1)"
      and r: "visit_list deleted (ComputeAddresses_visit e) c1 ns = Inr (ns', c')"
      and s: "secs' = n' # ns'"
      by (auto simp: ebind_Inr_iff)
    from ComputeAddresses_step[OF h Cons.prems(2) False] np(1)
    have fit: "addresses_fit e c1 ns"
      and m1: "next_flash c \<le> next_flash c1" "next_ram c \<le> next_ram c1"
      and p1: "placed n \<longrightarrow> addr_placed c c1 n'"
      by blast+
    from Cons.IH[OF r fit np(2)]
    have m2: "next_flash c1 \<le> next_flash c'" "next_ram c1 \<le> next_ram c'"
      and p2: "\<forall>i<length ns. placed (ns ! i) \<longrightarrow> addr_placed c1 c' (ns' ! i)"
      by blast+
    have head: "placed n \<longrightarrow> addr_placed c c' n'"
      using p1 addr_placed_mono[OF _ order_refl order_refl m2] by blast
    have tail: "\<forall>i<length ns. placed (ns ! i) \<longrightarrow> addr_placed c c' (ns' ! i)"
      using p2 addr_placed_mono[OF _ m1 order_refl order_refl] by blast
    from m1 m2 have "next_flash c \<le> next_flash c'" "next_ram c \<le> next_ram c'" by linarith+
    with head tail show ?thesis
      unfolding s by (simp add: All_less_Suc2)
  qed
qed

lemma addresses_fit_append:
  assumes "visit_list deleted (ComputeAddresses_visit e) c xs = Inr (xs', c1)"
  shows "addresses_fit e c (xs @ ys) = (addresses_fit e c xs \<and> addresses_fit e c1 ys)"
  using assms
proof (induction xs arbitrary: c xs' c1)
  case Nil
  then show ?case by simp
next
  case (Cons n ns)
  show ?case
  proof (cases "deleted n")
    case True
    with Cons.prems obtain ns' where
      r: "visit_list deleted (ComputeAddresses_visit e) c ns = Inr (ns', c1)"
      by (auto simp: ebind_Inr_iff)
    from Cons.IH[OF r] True show ?thesis by simp
  next
    case False
    with Cons.prems obtain n' c0 ns' where h: "ComputeAddresses_visit e c n = Inr (n', c0)"
      and r: "visit_list deleted (ComputeAddresses_visit e) c0 ns = Inr (ns', c1)"
      by (auto simp: ebind_Inr_iff)
    from Cons.IH[OF r] False h show ?thesis by auto
  qed
qed

lemma ComputeAddresses_at:
  assumes vl: "visit_list deleted (ComputeAddresses_visit e) c secs = Inr (secs', c')"
    and fit: "addresses_fit e c secs"
    and i: "i < length secs" and nd: "\<not> deleted (secs ! i)"
  shows "\<exists>xs' c1 s' c2 rest'.
      visit_list deleted (ComputeAddresses_visit e) c (take i secs) = Inr (xs', c1)
    \<and> ComputeAddresses_visit e c1 (secs ! i) = Inr (s', c2)
    \<and> visit_list deleted (ComputeAddresses_visit e) c2 (drop (Suc i) secs) = Inr (rest', c')
    \<and> secs' = xs' @ s' # rest' \<and> length xs' = i
    \<and> addresses_fit e c1 (secs ! i # drop (Suc i) secs)"
proof -
  have sp: "secs = take i secs @ (secs ! i # drop (Suc i) secs)"
    using i by (simp add: Cons_nth_drop_Suc)
  from vl have "visit_list deleted (ComputeAddresses_visit e) c
      (take i secs @ (secs ! i # drop (Suc i) secs)) = Inr (secs', c')"
    using sp by simp
  then obtain xs' c1 ys' where
    rx: "visit_list deleted (ComputeAddresses_visit e) c (take i secs) = Inr (xs', c1)" and
    ry: "visit_list deleted (ComputeAddresses_visit e) c1 (secs ! i # drop (Suc i) secs) = Inr (ys', c')"
    and s': "secs' = xs' @ ys'"
    unfolding visit_list_append by (auto simp: ebind_Inr_iff)
  from ry nd obtain n' c2 rest' where
    h: "ComputeAddresses_visit e c1 (secs ! i) = Inr (n', c2)" and
    r: "visit_list deleted (ComputeAddresses_visit e) c2 (drop (Suc i) secs) = Inr (rest', c')" and
    y: "ys' = n' # rest'"
    by (auto simp: ebind_Inr_iff)
  have lx: "length xs' = i" using visit_list_length[OF rx] i by simp
  from fit have "addresses_fit e c (take i secs @ (secs ! i # drop (Suc i) secs))"
    using sp by simp
  then have f1: "addresses_fit e c1 (secs ! i # drop (Suc i) secs)"
    unfolding addresses_fit_append[OF rx] by simp
  from rx h r s' y lx f1 show ?thesis by blast
qed

lemma ComputeAddresses_single:
  assumes vl: "visit_list deleted (ComputeAddresses_visit e) c secs = Inr (secs', c')"
    and fit: "addresses_fit e c secs"
    and i: "i < length secs" and p: "placed (secs ! i)"
  shows "\<exists>c1 c2. addr_placed c1 c2 (secs' ! i)"
proof -
  from p have nd: "\<not> deleted (secs ! i)" by (simp add: placed_def)
  from ComputeAddresses_at[OF vl fit i nd] obtain xs' c1 s' c2 rest' where
    h: "ComputeAddresses_visit e c1 (secs ! i) = Inr (s', c2)" and
    s': "secs' = xs' @ s' # rest'" and lx: "length xs' = i" and
    f1: "addresses_fit e c1 (secs ! i # drop (Suc i) secs)"
    by blast
  from ComputeAddresses_step[OF h f1 nd] p have "addr_placed c1 c2 s'" by blast
  moreover have "secs' ! i = s'" using lx by (simp add: s' nth_append)
  ultimately show ?thesis by blast
qed

lemma ComputeAddresses_pair:
  assumes vl: "visit_list deleted (ComputeAddresses_visit e) c secs = Inr (secs', c')"
    and fit: "addresses_fit e c secs"
    and ij: "i < j" "j < length secs"
    and pi: "placed (secs ! i)" and pj: "placed (secs ! j)"
    and win: "\<forall>k. i < k \<and> k < j \<longrightarrow> \<not> pinned (secs ! k)"
  shows "\<exists>c1 c2 c3 c4. addr_placed c1 c2 (secs' ! i) \<and> addr_placed c3 c4 (secs' ! j)
      \<and> next_flash c2 \<le> next_flash c3 \<and> next_ram c2 \<le> next_ram c3"
proof -
  from pi pj have nd: "\<not> deleted (secs ! i)" "\<not> deleted (secs ! j)" by (simp_all add: placed_def)
  have il: "i < length secs" using ij by simp
  from ComputeAddresses_at[OF vl fit il nd(1)] obtain xs' c1 si' c2 rest' where
    h: "ComputeAddresses_visit e c1 (secs ! i) = Inr (si', c2)" and
    r: "visit_list deleted (ComputeAddresses_visit e) c2 (drop (Suc i) secs) = Inr (rest', c')" and
    s': "secs' = xs' @ si' # rest'" and lx: "length xs' = i" and
    f1: "addresses_fit e c1 (secs ! i # drop (Suc i) secs)"
    by blast
  from ComputeAddresses_step[OF h f1 nd(1)] pi
  have pi': "addr_placed c1 c2 si'" and f2: "addresses_fit e c2 (drop (Suc i) secs)" by blast+
  define m where "m = j - Suc i"
  let ?rest = "drop (Suc i) secs"
  have ml: "m < length ?rest" using ij by (simp add: m_def)
  have rj: "?rest ! m = secs ! j" using ij by (simp add: m_def)
  have ndm: "\<not> deleted (?rest ! m)" using nd(2) rj by simp
  from ComputeAddresses_at[OF r f2 ml ndm] obtain ws' c3 sj' c4 rest2' where
    w: "visit_list deleted (ComputeAddresses_visit e) c2 (take m ?rest) = Inr (ws', c3)" and
    hj: "ComputeAddresses_visit e c3 (?rest ! m) = Inr (sj', c4)" and
    r': "rest' = ws' @ sj' # rest2'" and lw: "length ws' = m" and
    f3: "addresses_fit e c3 (?rest ! m # drop (Suc m) ?rest)"
    by blast
  have fw: "addresses_fit e c2 (take m ?rest)"
  proof -
    have "take m ?rest @ drop m ?rest = ?rest" by (rule append_take_drop_id)
    then have "addresses_fit e c2 (take m ?rest @ drop m ?rest)" using f2 by (simp only:)
    then show ?thesis unfolding addresses_fit_append[OF w] by simp
  qed
  have np: "\<forall>s\<in>set (take m ?rest). \<not> pinned s"
  proof
    fix s assume "s \<in> set (take m ?rest)"
    then obtain k where k: "k < length (take m ?rest)" "take m ?rest ! k = s"
      by (auto simp: in_set_conv_nth)
    then have km: "k < m" by simp
    then have "s = secs ! (Suc i + k)" using k ml by simp
    moreover have "i < Suc i + k" "Suc i + k < j" using km by (simp_all add: m_def)
    ultimately show "\<not> pinned s" using win by blast
  qed
  from ComputeAddresses_window[OF w fw np]
  have mono: "next_flash c2 \<le> next_flash c3" "next_ram c2 \<le> next_ram c3" by blast+
  from ComputeAddresses_step[OF hj f3 ndm] pj rj have pj': "addr_placed c3 c4 sj'" by simp
  have ei: "secs' ! i = si'" using lx by (simp add: s' nth_append)
  have "secs' ! j = rest' ! m" using lx ij by (simp add: s' nth_append m_def)
  also have "\<dots> = sj'" using lw by (simp add: r' nth_append)
  finally have ej: "secs' ! j = sj'" .
  from pi' pj' mono show ?thesis unfolding ei ej by blast
qed

lemma foldl_length:
  assumes "\<And>xs y. length (f xs y) = length xs"
  shows "length (foldl f xs ys) = length xs"
  by (induction ys arbitrary: xs) (simp_all add: assms)

lemma ComputeAddresses_segments_length:
  "length (ComputeAddresses_segments elffile) = length (sections elffile)"
proof -
  have a: "length (set_paddr d secs i) = length secs" for d secs i
    by (simp add: set_paddr_def)
  have b: "length (ComputeAddresses_visit_Segment secs seg) = length secs" for secs seg
    unfolding ComputeAddresses_visit_Segment_def by (simp add: foldl_length a)
  show ?thesis
    unfolding ComputeAddresses_segments_def by (rule foldl_length) (simp add: b)
qed

lemma unchanged_flags:
  assumes "unchanged s s'"
  shows "placed s' = placed s" "pinned s' = pinned s" "has_flag s' f = has_flag s f"
    "sh_type s' = sh_type s"
  using assms by (simp_all add: unchanged_def placed_def pinned_def has_flag_def)

lemma addr_placed_order:
  assumes a: "addr_placed c1 c2 si" and b: "addr_placed c3 c4 sj"
    and m: "next_flash c2 \<le> next_flash c3" "next_ram c2 \<le> next_ram c3"
    and w: "has_flag si SHF_WRITE = has_flag sj SHF_WRITE"
    and nb: "has_flag si SHF_WRITE \<or> sh_type si \<noteq> SHT_NOBITS"
  shows "uint (sh_addr si) + int (size_sec si) \<le> uint (sh_addr sj)"
proof (cases "has_flag si SHF_WRITE")
  case True
  with a b w m show ?thesis by (simp add: addr_placed_def)
next
  case False
  with nb have "psize si = size_sec si" by (simp add: psize_def)
  with False a b w m show ?thesis by (simp add: addr_placed_def)
qed

text \<open>
  Claim C5, amended. When \<^verbatim>\<open>ComputeAddresses\<close> returns and no address it assigns is truncated
  by the 32-bit field: the section list keeps its length; every section the pass places (not
  deleted, not fixed, \<^verbatim>\<open>SHF_ALLOC\<close>) has an \<^verbatim>\<open>sh_addr\<close> that is a multiple of its
  \<^verbatim>\<open>sh_addralign\<close>; and for two placed sections, the first before the second in the list, whose
  \<^verbatim>\<open>SHF_WRITE\<close> flags agree, the first writable or not \<^verbatim>\<open>SHT_NOBITS\<close>, with no visited fixed
  \<^verbatim>\<open>SHF_ALLOC\<close> section between them, the second's \<^verbatim>\<open>sh_addr\<close> is at least the first's
  \<^verbatim>\<open>sh_addr\<close> plus its size.
\<close>

theorem C5_addresses_ordered:
  assumes run: "ComputeAddresses_visit_Elf elffile = Inr (elf', c')"
    and fit: "addresses_fit elffile ComputeAddresses_init (ComputeAddresses_segments elffile)"
  shows "length (sections elf') = length (sections elffile)
     \<and> (\<forall>i<length (sections elf'). placed (sections elf' ! i) \<longrightarrow>
           uint (sh_addralign (sections elf' ! i)) dvd uint (sh_addr (sections elf' ! i))
         \<and> (\<forall>j<length (sections elf').
               i < j \<and> placed (sections elf' ! j)
               \<and> has_flag (sections elf' ! i) SHF_WRITE = has_flag (sections elf' ! j) SHF_WRITE
               \<and> (has_flag (sections elf' ! i) SHF_WRITE \<or> sh_type (sections elf' ! i) \<noteq> SHT_NOBITS)
               \<and> (\<forall>k. i < k \<and> k < j \<longrightarrow> \<not> pinned (sections elf' ! k))
             \<longrightarrow> uint (sh_addr (sections elf' ! i)) + int (size_sec (sections elf' ! i))
                   \<le> uint (sh_addr (sections elf' ! j))))"
proof -
  let ?secs = "ComputeAddresses_segments elffile"
  from run obtain secs' where
    vl: "visit_list deleted (ComputeAddresses_visit elffile) ComputeAddresses_init ?secs
           = Inr (secs', c')"
    and e': "elf' = elffile\<lparr>sections := secs'\<rparr>"
    by (auto simp: ComputeAddresses_visit_Elf_def ebind_Inr_iff)
  have se: "sections elf' = secs'" by (simp add: e')
  note lu = ComputeAddresses_list_unchanged[OF vl]
  have len: "length secs' = length ?secs" using lu by simp
  have un: "unchanged (?secs ! k) (secs' ! k)" if "k < length secs'" for k
    using lu that by simp
  have g1: "length (sections elf') = length (sections elffile)"
    by (simp add: se len ComputeAddresses_segments_length)
  have each: "uint (sh_addralign (secs' ! i)) dvd uint (sh_addr (secs' ! i))
         \<and> (\<forall>j<length secs'.
               i < j \<and> placed (secs' ! j)
               \<and> has_flag (secs' ! i) SHF_WRITE = has_flag (secs' ! j) SHF_WRITE
               \<and> (has_flag (secs' ! i) SHF_WRITE \<or> sh_type (secs' ! i) \<noteq> SHT_NOBITS)
               \<and> (\<forall>k. i < k \<and> k < j \<longrightarrow> \<not> pinned (secs' ! k))
             \<longrightarrow> uint (sh_addr (secs' ! i)) + int (size_sec (secs' ! i)) \<le> uint (sh_addr (secs' ! j)))"
    if i: "i < length secs'" and p: "placed (secs' ! i)" for i
  proof -
    have il: "i < length ?secs" using i len by simp
    have pi: "placed (?secs ! i)" using unchanged_flags(1)[OF un[OF i]] p by simp
    from ComputeAddresses_single[OF vl fit il pi]
    have r1: "uint (sh_addralign (secs' ! i)) dvd uint (sh_addr (secs' ! i))"
      by (auto simp: addr_placed_def)
    have r2: "uint (sh_addr (secs' ! i)) + int (size_sec (secs' ! i)) \<le> uint (sh_addr (secs' ! j))"
      if j: "j < length secs'" "i < j" "placed (secs' ! j)"
        and w: "has_flag (secs' ! i) SHF_WRITE = has_flag (secs' ! j) SHF_WRITE"
        and nb: "has_flag (secs' ! i) SHF_WRITE \<or> sh_type (secs' ! i) \<noteq> SHT_NOBITS"
        and win: "\<forall>k. i < k \<and> k < j \<longrightarrow> \<not> pinned (secs' ! k)" for j
    proof -
      have jl: "j < length ?secs" using j len by simp
      have pj: "placed (?secs ! j)" using unchanged_flags(1)[OF un[OF j(1)]] j(3) by simp
      have win0: "\<forall>k. i < k \<and> k < j \<longrightarrow> \<not> pinned (?secs ! k)"
      proof (intro allI impI)
        fix k assume k: "i < k \<and> k < j"
        then have "k < length secs'" using j(1) by simp
        from unchanged_flags(2)[OF un[OF this]] win k show "\<not> pinned (?secs ! k)" by simp
      qed
      from ComputeAddresses_pair[OF vl fit j(2) jl pi pj win0] obtain c1 c2 c3 c4 where
        "addr_placed c1 c2 (secs' ! i)" "addr_placed c3 c4 (secs' ! j)"
        "next_flash c2 \<le> next_flash c3" "next_ram c2 \<le> next_ram c3"
        by blast
      then show ?thesis using w nb by (rule addr_placed_order)
    qed
    from r1 r2 show ?thesis by blast
  qed
  from g1 each show ?thesis unfolding se by blast
qed

theorem C5_addresses_ordered_witness:
  "ComputeAddresses_visit_Elf (Elf_indexed [ex_text, ex_data, ex_rodata] [])
     = Inr (Elf_indexed [ex_text', ex_data', ex_rodata'] [],
            \<lparr>next_flash = 0x10000018, next_ram = 0x20000008\<rparr>)
   \<and> addresses_fit (Elf_indexed [ex_text, ex_data, ex_rodata] []) ComputeAddresses_init
        (ComputeAddresses_segments (Elf_indexed [ex_text, ex_data, ex_rodata] []))
   \<and> placed ex_text' \<and> placed ex_rodata' \<and> \<not> pinned ex_data'
   \<and> \<not> has_flag ex_text' SHF_WRITE \<and> \<not> has_flag ex_rodata' SHF_WRITE
   \<and> sh_type ex_text' \<noteq> SHT_NOBITS
   \<and> uint (sh_addralign ex_text') dvd uint (sh_addr ex_text')
   \<and> uint (sh_addr ex_text') + int (size_sec ex_text') \<le> uint (sh_addr ex_rodata')"
proof -
  let ?E = "Elf_indexed [ex_text, ex_data, ex_rodata] []"
  let ?L = "[ex_text', ex_data', ex_rodata']"
  let ?E' = "Elf_indexed ?L []"
  let ?c = "\<lparr>next_flash = 0x10000018, next_ram = 0x20000008\<rparr>"
  have run: "ComputeAddresses_visit_Elf ?E = Inr (?E', ?c)" by code_simp
  have fit: "addresses_fit ?E ComputeAddresses_init (ComputeAddresses_segments ?E)" by code_simp
  have s: "sections ?E' = ?L" by (simp add: Elf_indexed_def)
  have n: "(0::nat) < length ?L" "(2::nat) < length ?L" "?L ! 0 = ex_text'" "?L ! 2 = ex_rodata'"
    by simp_all
  have f: "placed ex_text'" "placed ex_rodata'" "\<not> pinned ex_data'"
    "\<not> has_flag ex_text' SHF_WRITE" "\<not> has_flag ex_rodata' SHF_WRITE"
    "sh_type ex_text' \<noteq> SHT_NOBITS"
    by code_simp+
  have win: "\<forall>k. (0::nat) < k \<and> k < 2 \<longrightarrow> \<not> pinned (?L ! k)"
  proof (intro allI impI)
    fix k :: nat assume "0 < k \<and> k < 2"
    then have "k = 1" by simp
    then show "\<not> pinned (?L ! k)" using f(3) by simp
  qed
  have p0: "placed (?L ! 0)" unfolding n(3) by (rule f(1))
  have h: "(0::nat) < 2 \<and> placed (?L ! 2)
               \<and> has_flag (?L ! 0) SHF_WRITE = has_flag (?L ! 2) SHF_WRITE
               \<and> (has_flag (?L ! 0) SHF_WRITE \<or> sh_type (?L ! 0) \<noteq> SHT_NOBITS)
               \<and> (\<forall>k. 0 < k \<and> k < 2 \<longrightarrow> \<not> pinned (?L ! k))"
    unfolding n(3,4) using f win by simp
  note t = C5_addresses_ordered[OF run fit, unfolded s, THEN conjunct2, rule_format,
      of "0::nat", OF n(1) p0]
  note b = t[THEN conjunct1, unfolded n(3)]
  note c = t[THEN conjunct2, rule_format, of "2::nat", OF n(2) h, unfolded n(3,4)]
  from run fit f b c show ?thesis by (intro conjI)
qed

text \<open>
  The claim as stated fails on a read-only section of type \<^verbatim>\<open>SHT_NOBITS\<close>: the flash cursor
  advances by its \<^verbatim>\<open>psize\<close>, which is 0, so the next read-only section gets the same address,
  while the size of the section is the 16 bytes of its \<^verbatim>\<open>sh_size\<close>.
\<close>

theorem C5_counterexample:
  "ComputeAddresses_visit_Elf (Elf_indexed [ex_nobits, ex_text] [])
     = Inr (Elf_indexed [ex_nobits\<lparr>sh_addr := 0x10000000, sh_size := 16, paddr := Some 0x10000000\<rparr>,
                         ex_text'] [],
            \<lparr>next_flash = 0x10000004, next_ram = 0x20000000\<rparr>)
   \<and> placed (ex_nobits\<lparr>sh_addr := 0x10000000, sh_size := 16, paddr := Some 0x10000000\<rparr>)
   \<and> placed ex_text'
   \<and> \<not> has_flag (ex_nobits\<lparr>sh_addr := 0x10000000, sh_size := 16, paddr := Some 0x10000000\<rparr>) SHF_WRITE
   \<and> \<not> has_flag ex_text' SHF_WRITE
   \<and> size_sec (ex_nobits\<lparr>sh_addr := 0x10000000, sh_size := 16, paddr := Some 0x10000000\<rparr>) = 16
   \<and> uint (sh_addr ex_text') = 0x10000000
   \<and> \<not> uint (sh_addr (ex_nobits\<lparr>sh_addr := 0x10000000, sh_size := 16, paddr := Some 0x10000000\<rparr>))
          + int (size_sec (ex_nobits\<lparr>sh_addr := 0x10000000, sh_size := 16, paddr := Some 0x10000000\<rparr>))
        \<le> uint (sh_addr ex_text')"
  by code_simp

section \<open>The loops of \<^verbatim>\<open>mkextmod.py\<close>\<close>

subsection \<open>\<^verbatim>\<open>mk_dyn\<close> and the veneer loop\<close>



lemma same_symbols_trans:
  assumes "same_symbols a b" "same_symbols b c"
  shows "same_symbols a c"
  unfolding same_symbols_def
proof (intro conjI allI impI)
  show "length c = length a" using assms by (simp add: same_symbols_def)
next
  fix k assume k: "k < length a"
  then have kb: "k < length b" using assms(1) by (simp add: same_symbols_def)
  have 1: "b ! k = (a ! k)\<lparr>dyn := dyn (b ! k)\<rparr>" using assms(1) k by (simp add: same_symbols_def)
  have 2: "c ! k = (b ! k)\<lparr>dyn := dyn (c ! k)\<rparr>" using assms(2) kb by (simp add: same_symbols_def)
  show "c ! k = (a ! k)\<lparr>dyn := dyn (c ! k)\<rparr>"
    by (subst 2, subst 1) simp
qed











subsection \<open>The relocation conversion loop\<close>







end
